theory Spec2Isabelle
  imports Complex_Main "HOL-Library.List_Lexorder" "HOL-Library.Char_ord"
begin

section \<open>The ordered map of the standard library\<close>

text \<open>
  \<open>Graph.hpp\<close> keeps its whole state in nested \<open>std::map\<close>s. A \<open>std::map\<close> is modelled as
  an association list kept in ascending key order, which is the order in which the
  source's iterators visit it. \<open>map_of\<close> is \<open>find\<close> (\<open>None\<close> is \<open>end()\<close>), \<open>m_put\<close> is the
  insertion or overwrite of one key, \<open>m_erase\<close> is \<open>erase(key)\<close>, and \<open>m_at\<close> is a use of
  \<open>operator[]\<close>: the element is value-initialised when the key is absent, and the
  reference that \<open>operator[]\<close> returns is then read or written.
\<close>

fun m_put :: "'k::linorder \<Rightarrow> 'v \<Rightarrow> ('k \<times> 'v) list \<Rightarrow> ('k \<times> 'v) list" where
  "m_put k v [] = [(k, v)]"
| "m_put k v ((k', v') # r) =
     (if k < k' then (k, v) # (k', v') # r
      else if k = k' then (k, v) # r
      else (k', v') # m_put k v r)"

fun m_erase :: "'k \<Rightarrow> ('k \<times> 'v) list \<Rightarrow> ('k \<times> 'v) list" where
  "m_erase k [] = []"
| "m_erase k ((k', v') # r) = (if k' = k then m_erase k r else (k', v') # m_erase k r)"

definition m_val :: "'v \<Rightarrow> ('k \<times> 'v) list \<Rightarrow> 'k \<Rightarrow> 'v" where
  "m_val dflt m k = (case map_of m k of None \<Rightarrow> dflt | Some v \<Rightarrow> v)"

definition m_at :: "'v \<Rightarrow> 'k::linorder \<Rightarrow> ('v \<Rightarrow> 'v) \<Rightarrow> ('k \<times> 'v) list \<Rightarrow> ('k \<times> 'v) list" where
  "m_at dflt k f m = m_put k (f (m_val dflt m k)) m"

section \<open>The data model of \<open>Graph\<close>\<close>

text \<open>
  The table is \<open>std::map<int, std::map<int, std::map<std::string, std::pair<bool, float>>>>\<close>:
  source vertex, then neighbour, then key, then the pair of the outward flag and the
  magnitude. Vertex identifiers are only compared, never computed with, so they are
  integers. The magnitude is a \<open>float\<close> in the source; it is idealised as a real number,
  the only arithmetic on it being the subtraction and absolute value of the sentinel
  test in \<open>set\<close> and the negation in \<open>get\<close> (rounding, infinities and NaN are not part of
  the model).
\<close>

type_synonym rel = "bool \<times> real"
type_synonym nbr_map = "(string \<times> rel) list"
type_synonym vtx_map = "(int \<times> nbr_map) list"
type_synonym table = "(int \<times> vtx_map) list"

record Graph =
  data :: table
  directed :: bool
  no_relationship :: real

datatype direction = UNDIRECTED | FROM | TO

text \<open>The value-initialised \<open>std::pair<bool, float>\<close> that \<open>operator[]\<close> inserts.\<close>

definition rel0 :: rel where
  "rel0 = (False, 0)"

text \<open>
  \<open>find3\<close> is the chain of three \<open>find\<close> calls that \<open>get\<close> and \<open>contains\<close> make, and
  \<open>find2\<close> its first two steps. \<open>at2 i j f\<close> is a statement that reaches \<open>data[i][j]\<close>
  through \<open>operator[]\<close> and applies \<open>f\<close> to it; \<open>at3 i j key f\<close> does the same with
  \<open>data[i][j][key]\<close>. \<open>val2\<close> and \<open>val3\<close> are the values such an expression denotes.
\<close>

definition find2 :: "table \<Rightarrow> int \<Rightarrow> int \<Rightarrow> nbr_map option" where
  "find2 d i j = (case map_of d i of None \<Rightarrow> None | Some V \<Rightarrow> map_of V j)"

definition find3 :: "table \<Rightarrow> int \<Rightarrow> int \<Rightarrow> string \<Rightarrow> rel option" where
  "find3 d i j key =
     (case map_of d i of None \<Rightarrow> None
      | Some V \<Rightarrow> (case map_of V j of None \<Rightarrow> None | Some N \<Rightarrow> map_of N key))"

definition val1 :: "table \<Rightarrow> int \<Rightarrow> vtx_map" where
  "val1 d i = m_val [] d i"

definition val2 :: "table \<Rightarrow> int \<Rightarrow> int \<Rightarrow> nbr_map" where
  "val2 d i j = m_val [] (val1 d i) j"

definition val3 :: "table \<Rightarrow> int \<Rightarrow> int \<Rightarrow> string \<Rightarrow> rel" where
  "val3 d i j key = m_val rel0 (val2 d i j) key"

definition at1 :: "int \<Rightarrow> (vtx_map \<Rightarrow> vtx_map) \<Rightarrow> table \<Rightarrow> table" where
  "at1 i f d = m_at [] i f d"

definition at2 :: "int \<Rightarrow> int \<Rightarrow> (nbr_map \<Rightarrow> nbr_map) \<Rightarrow> table \<Rightarrow> table" where
  "at2 i j f d = at1 i (m_at [] j f) d"

definition at3 :: "int \<Rightarrow> int \<Rightarrow> string \<Rightarrow> (rel \<Rightarrow> rel) \<Rightarrow> table \<Rightarrow> table" where
  "at3 i j key f d = at2 i j (m_at rel0 key f) d"

section \<open>Constructors and assignment\<close>

definition Graph_new :: "bool \<Rightarrow> real \<Rightarrow> Graph" where
  "Graph_new dir x = \<lparr>data = [], directed = dir, no_relationship = x\<rparr>"

text \<open>
  The copy constructor initialises \<open>directed\<close> and assigns \<open>data\<close>; it has no initialiser
  for \<open>no_relationship\<close>, whose value in the new object is therefore indeterminate. The
  model takes that value as the parameter \<open>u\<close>.
\<close>

definition Graph_copy :: "real \<Rightarrow> Graph \<Rightarrow> Graph" where
  "Graph_copy u g = \<lparr>data = data g, directed = directed g, no_relationship = u\<rparr>"

text \<open>
  \<open>operator=\<close>: \<open>this\<close> is the object assigned to. Assigning an object to itself returns it
  as it is, which the two assignments below also do.
\<close>

definition assign :: "Graph \<Rightarrow> Graph \<Rightarrow> Graph" where
  "assign this g = this\<lparr>directed := directed g, data := data g\<rparr>"

section \<open>Queries\<close>

definition size_g :: "Graph \<Rightarrow> nat" where
  "size_g g = length (data g)"

text \<open>
  The private \<open>nbrs\<close>. A \<open>std::set<int>\<close> is the ascending list of its elements. With
  direction \<open>TO\<close> the source dereferences \<open>data.find(j)->second.find(i)->second.find(k)\<close>
  without comparing any of the three iterators with \<open>end()\<close>; where one of them is
  \<open>end()\<close> the behaviour is undefined, which is the result \<open>None\<close>.
\<close>

definition nbrs_test ::
  "table \<Rightarrow> int \<Rightarrow> int \<Rightarrow> direction \<Rightarrow> bool \<Rightarrow> string \<Rightarrow> string \<Rightarrow> rel \<Rightarrow> bool option" where
  "nbrs_test d i j dir limit_key key k R =
     (if \<not> (\<not> limit_key \<or> k = key) then Some False
      else if dir = UNDIRECTED then Some True
      else if dir = FROM \<and> fst R then Some True
      else if dir \<noteq> TO then Some False
      else if \<not> fst R then Some True
      else (case find3 d j i k of None \<Rightarrow> None | Some R' \<Rightarrow> Some (fst R')))"

fun nbrs_rels ::
  "table \<Rightarrow> int \<Rightarrow> int \<Rightarrow> direction \<Rightarrow> bool \<Rightarrow> string \<Rightarrow> nbr_map \<Rightarrow> int list \<Rightarrow> int list option" where
  "nbrs_rels d i j dir limit_key key [] out = Some out"
| "nbrs_rels d i j dir limit_key key ((k, R) # r) out =
     (case nbrs_test d i j dir limit_key key k R of
        None \<Rightarrow> None
      | Some b \<Rightarrow> nbrs_rels d i j dir limit_key key r (if b then insort_insert j out else out))"

fun nbrs_loop ::
  "table \<Rightarrow> int \<Rightarrow> direction \<Rightarrow> bool \<Rightarrow> string \<Rightarrow> vtx_map \<Rightarrow> int list \<Rightarrow> int list option" where
  "nbrs_loop d i dir limit_key key [] out = Some out"
| "nbrs_loop d i dir limit_key key ((j, N) # r) out =
     (if limit_key \<and> map_of N key = None then nbrs_loop d i dir limit_key key r out
      else (case nbrs_rels d i j dir limit_key key N out of
              None \<Rightarrow> None
            | Some out' \<Rightarrow> nbrs_loop d i dir limit_key key r out'))"

definition nbrs_priv :: "Graph \<Rightarrow> int \<Rightarrow> direction \<Rightarrow> bool \<Rightarrow> string \<Rightarrow> int list option" where
  "nbrs_priv g i dir limit_key key =
     (case map_of (data g) i of
        None \<Rightarrow> Some []
      | Some V \<Rightarrow> nbrs_loop (data g) i dir limit_key key V [])"

definition nbrs_ik :: "Graph \<Rightarrow> int \<Rightarrow> string \<Rightarrow> int list option" where
  "nbrs_ik g i key = nbrs_priv g i UNDIRECTED True key"

definition nbrs_i :: "Graph \<Rightarrow> int \<Rightarrow> int list option" where
  "nbrs_i g i = nbrs_priv g i UNDIRECTED False []"

definition nbrs_to_ik :: "Graph \<Rightarrow> int \<Rightarrow> string \<Rightarrow> int list option" where
  "nbrs_to_ik g i key = nbrs_priv g i TO True key"

definition nbrs_to_i :: "Graph \<Rightarrow> int \<Rightarrow> int list option" where
  "nbrs_to_i g i = nbrs_priv g i TO False []"

definition nbrs_from_ik :: "Graph \<Rightarrow> int \<Rightarrow> string \<Rightarrow> int list option" where
  "nbrs_from_ik g i key = nbrs_priv g i FROM True key"

definition nbrs_from_i :: "Graph \<Rightarrow> int \<Rightarrow> int list option" where
  "nbrs_from_i g i = nbrs_priv g i FROM False []"

definition vertices :: "Graph \<Rightarrow> int list" where
  "vertices g = fold (\<lambda>(i, V) out. insort_insert i out) (data g) []"

text \<open>The three loops of \<open>keys()\<close>, innermost first; a \<open>std::set<std::string>\<close> is an ascending list.\<close>

definition keys_rels :: "nbr_map \<Rightarrow> string list \<Rightarrow> string list" where
  "keys_rels N out = fold (\<lambda>(k, R) out. insort_insert k out) N out"

definition keys_nbrs :: "vtx_map \<Rightarrow> string list \<Rightarrow> string list" where
  "keys_nbrs V out = fold (\<lambda>(j, N) out. keys_rels N out) V out"

definition keys_all :: "Graph \<Rightarrow> string list" where
  "keys_all g = fold (\<lambda>(i, V) out. keys_nbrs V out) (data g) []"

text \<open>
  \<open>keys(int i)\<close> binds \<open>it->second\<close> right after \<open>data.find(i)\<close>, with no comparison of \<open>it\<close>
  with \<open>data.end()\<close>: for a vertex that is not in the table it dereferences the end
  iterator, which is undefined behaviour, the result \<open>None\<close>.
\<close>

definition keys_i :: "Graph \<Rightarrow> int \<Rightarrow> string list option" where
  "keys_i g i =
     (case map_of (data g) i of
        None \<Rightarrow> None
      | Some V \<Rightarrow> Some (keys_nbrs V []))"

definition keys_ij :: "Graph \<Rightarrow> int \<Rightarrow> int \<Rightarrow> string list" where
  "keys_ij g i j =
     (case map_of (data g) i of
        None \<Rightarrow> []
      | Some V \<Rightarrow> (case map_of V j of None \<Rightarrow> [] | Some N \<Rightarrow> keys_rels N []))"

definition contains_ijku :: "Graph \<Rightarrow> int \<Rightarrow> int \<Rightarrow> string \<Rightarrow> bool \<Rightarrow> bool" where
  "contains_ijku g i j key undir =
     (case map_of (data g) i of
        None \<Rightarrow> False
      | Some V \<Rightarrow>
          (case map_of V j of
             None \<Rightarrow> False
           | Some N \<Rightarrow> (case map_of N key of None \<Rightarrow> False | Some R \<Rightarrow> undir \<or> fst R)))"

definition contains_dir_ijk :: "Graph \<Rightarrow> int \<Rightarrow> int \<Rightarrow> string \<Rightarrow> bool" where
  "contains_dir_ijk g i j key = contains_ijku g i j key False"

definition contains_undir_ijk :: "Graph \<Rightarrow> int \<Rightarrow> int \<Rightarrow> string \<Rightarrow> bool" where
  "contains_undir_ijk g i j key = contains_ijku g i j key True"

definition contains_ijk :: "Graph \<Rightarrow> int \<Rightarrow> int \<Rightarrow> string \<Rightarrow> bool" where
  "contains_ijk g i j key = contains_ijku g i j key (\<not> directed g)"

text \<open>The loop \<open>for ( ; !flag && kt != N.end(); ++kt ) flag = kt->second.first\<close>.\<close>

fun scan_rels :: "bool \<Rightarrow> nbr_map \<Rightarrow> bool" where
  "scan_rels flag [] = flag"
| "scan_rels flag ((k, R) # r) = (if \<not> flag then scan_rels (fst R) r else flag)"

fun scan_nbrs :: "bool \<Rightarrow> vtx_map \<Rightarrow> bool" where
  "scan_nbrs flag [] = flag"
| "scan_nbrs flag ((j, N) # r) = (if \<not> flag then scan_nbrs (scan_rels flag N) r else flag)"

definition contains_dir_ij :: "Graph \<Rightarrow> int \<Rightarrow> int \<Rightarrow> bool" where
  "contains_dir_ij g i j =
     (case map_of (data g) i of
        None \<Rightarrow> False
      | Some V \<Rightarrow> (case map_of V j of None \<Rightarrow> False | Some N \<Rightarrow> scan_rels False N))"

definition contains_undir_ij :: "Graph \<Rightarrow> int \<Rightarrow> int \<Rightarrow> bool" where
  "contains_undir_ij g i j =
     (case map_of (data g) i of
        None \<Rightarrow> False
      | Some V \<Rightarrow> (case map_of V j of None \<Rightarrow> False | Some N \<Rightarrow> length N > 0))"

definition contains_ij :: "Graph \<Rightarrow> int \<Rightarrow> int \<Rightarrow> bool" where
  "contains_ij g i j = (if directed g then contains_dir_ij g i j else contains_undir_ij g i j)"

definition contains_dir_i :: "Graph \<Rightarrow> int \<Rightarrow> bool" where
  "contains_dir_i g i =
     (case map_of (data g) i of None \<Rightarrow> False | Some V \<Rightarrow> scan_nbrs False V)"

definition contains_undir_i :: "Graph \<Rightarrow> int \<Rightarrow> bool" where
  "contains_undir_i g i =
     (case map_of (data g) i of None \<Rightarrow> False | Some V \<Rightarrow> length V > 0)"

definition contains_i :: "Graph \<Rightarrow> int \<Rightarrow> bool" where
  "contains_i g i = (if directed g then contains_dir_i g i else contains_undir_i g i)"

definition get_ijk :: "Graph \<Rightarrow> int \<Rightarrow> int \<Rightarrow> string \<Rightarrow> real" where
  "get_ijk g i j key =
     (case map_of (data g) i of
        None \<Rightarrow> no_relationship g
      | Some V \<Rightarrow>
          (case map_of V j of
             None \<Rightarrow> no_relationship g
           | Some N \<Rightarrow>
               (case map_of N key of
                  None \<Rightarrow> no_relationship g
                | Some R \<Rightarrow> if fst R = False then - 1 * snd R else snd R)))"

definition get_ij :: "Graph \<Rightarrow> int \<Rightarrow> int \<Rightarrow> real" where
  "get_ij g i j = get_ijk g i j []"

section \<open>Clearing\<close>

text \<open>
  The four statements that end \<open>clear(i, j, key, undir)\<close> and \<open>clear_dir(i, j)\<close>. Each
  condition reaches its map through \<open>operator[]\<close>, which inserts the map when it is
  absent, so the access is part of the state change.
\<close>

definition prune_pair :: "int \<Rightarrow> int \<Rightarrow> table \<Rightarrow> table" where
  "prune_pair i j d =
     (let d' = at2 i j id d
      in if length (val2 d' i j) = 0 then at1 i (m_erase j) d' else d')"

definition prune_vertex :: "int \<Rightarrow> table \<Rightarrow> table" where
  "prune_vertex i d =
     (let d' = at1 i id d
      in if length (val1 d' i) = 0 then m_erase i d' else d')"

definition prune :: "int \<Rightarrow> int \<Rightarrow> table \<Rightarrow> table" where
  "prune i j d = prune_vertex j (prune_vertex i (prune_pair j i (prune_pair i j d)))"

text \<open>
  The assignments \<open>data[i][j][key].first = false;
  data[i][j][key].second = data[j][i][key].second\<close>, in this order; the second one
  reads \<open>data[j][i][key]\<close> in the state the first one leaves.
\<close>

definition demote :: "int \<Rightarrow> int \<Rightarrow> string \<Rightarrow> table \<Rightarrow> table" where
  "demote i j key d =
     (let d1 = at3 i j key (\<lambda>R. (False, snd R)) d;
          d2 = at3 j i key id d1;
          x = snd (val3 d2 j i key)
      in at3 i j key (\<lambda>R. (fst R, x)) d2)"

definition clear_ijku :: "Graph \<Rightarrow> int \<Rightarrow> int \<Rightarrow> string \<Rightarrow> bool \<Rightarrow> Graph" where
  "clear_ijku g i j key undir =
     (if \<not> contains_undir_ijk g i j key then g
      else
        let d = data g;
            d' =
              (if undir then at2 j i (m_erase key) (at2 i j (m_erase key) d)
               else
                 let d1 = at3 i j key id d
                 in if \<not> fst (val3 d1 i j key) then d1
                    else
                      let d2 = at3 j i key id d1
                      in if \<not> fst (val3 d2 j i key)
                         then at2 i j (m_erase key) (at2 j i (m_erase key) d2)
                         else demote i j key d2)
        in g\<lparr>data := prune i j d'\<rparr>)"

definition clear_dir_ijk :: "Graph \<Rightarrow> int \<Rightarrow> int \<Rightarrow> string \<Rightarrow> Graph" where
  "clear_dir_ijk g i j key = clear_ijku g i j key False"

definition clear_undir_ijk :: "Graph \<Rightarrow> int \<Rightarrow> int \<Rightarrow> string \<Rightarrow> Graph" where
  "clear_undir_ijk g i j key = clear_ijku g i j key True"

definition clear_ijk :: "Graph \<Rightarrow> int \<Rightarrow> int \<Rightarrow> string \<Rightarrow> Graph" where
  "clear_ijk g i j key = clear_ijku g i j key (\<not> directed g)"

text \<open>
  The loop of \<open>clear_dir(i, j)\<close> over the entries of \<open>data[i][j]\<close>. An iteration erases
  or rewrites only the entry it stands on and touches \<open>data[j][i]\<close> at the same key, so
  the loop visits the entries that \<open>data[i][j]\<close> holds when it starts; \<open>k\<close> is \<open>it->first\<close>
  and \<open>R\<close> is \<open>it->second\<close>. The two assignments through the iterator in the last branch
  are those of \<open>demote\<close>.
\<close>

definition clear_dir_body :: "int \<Rightarrow> int \<Rightarrow> string \<Rightarrow> rel \<Rightarrow> table \<Rightarrow> table" where
  "clear_dir_body i j k R d =
     (if \<not> fst R then d
      else
        let d1 = at3 j i k id d
        in if \<not> fst (val3 d1 j i k)
           then at2 i j (m_erase k) (at2 j i (m_erase k) d1)
           else demote i j k d1)"

fun clear_dir_loop :: "int \<Rightarrow> int \<Rightarrow> nbr_map \<Rightarrow> table \<Rightarrow> table" where
  "clear_dir_loop i j [] d = d"
| "clear_dir_loop i j ((k, R) # r) d = clear_dir_loop i j r (clear_dir_body i j k R d)"

definition clear_dir_ij :: "Graph \<Rightarrow> int \<Rightarrow> int \<Rightarrow> Graph" where
  "clear_dir_ij g i j =
     (if \<not> contains_ij g i j then g
      else
        let d = at2 i j id (data g)
        in g\<lparr>data := prune i j (clear_dir_loop i j (val2 d i j) d)\<rparr>)"

definition clear_undir_ij :: "Graph \<Rightarrow> int \<Rightarrow> int \<Rightarrow> Graph" where
  "clear_undir_ij g i j =
     (if \<not> contains_undir_ij g i j then g
      else
        let d1 = at1 i (m_erase j) (data g);
            d2 = at1 j (m_erase i) d1
        in g\<lparr>data := prune_vertex j (prune_vertex i d2)\<rparr>)"

definition clear_ij :: "Graph \<Rightarrow> int \<Rightarrow> int \<Rightarrow> Graph" where
  "clear_ij g i j = (if directed g then clear_dir_ij g i j else clear_undir_ij g i j)"

text \<open>
  The clears of one key at one vertex take the neighbour set from \<open>nbrs\<close> first and
  then clear pair by pair, in ascending order of the neighbour.
\<close>

definition clear_dir_ik :: "Graph \<Rightarrow> int \<Rightarrow> string \<Rightarrow> Graph option" where
  "clear_dir_ik g i key =
     (case nbrs_i g i of
        None \<Rightarrow> None
      | Some N \<Rightarrow> Some (fold (\<lambda>n g'. clear_dir_ijk g' i n key) N g))"

definition clear_undir_ik :: "Graph \<Rightarrow> int \<Rightarrow> string \<Rightarrow> Graph option" where
  "clear_undir_ik g i key =
     (case nbrs_priv g i UNDIRECTED True key of
        None \<Rightarrow> None
      | Some N \<Rightarrow> Some (fold (\<lambda>n g'. clear_undir_ijk g' i n key) N g))"

definition clear_ik :: "Graph \<Rightarrow> int \<Rightarrow> string \<Rightarrow> Graph option" where
  "clear_ik g i key = (if directed g then clear_dir_ik g i key else clear_undir_ik g i key)"

definition clear_i_step :: "int \<Rightarrow> int \<Rightarrow> table \<Rightarrow> table" where
  "clear_i_step i n d =
     (if map_of d n = None then d
      else
        let d1 = at1 n (m_erase i) d;
            d2 = at1 n id d1
        in if length (val1 d2 n) = 0 then m_erase n d2 else d2)"

definition clear_i :: "Graph \<Rightarrow> int \<Rightarrow> Graph option" where
  "clear_i g i =
     (if \<not> contains_undir_i g i then Some g
      else
        (case nbrs_priv g i UNDIRECTED False [] of
           None \<Rightarrow> None
         | Some N \<Rightarrow> Some (g\<lparr>data := fold (clear_i_step i) N (m_erase i (data g))\<rparr>)))"

text \<open>The three nested loops of \<open>clear(key)\<close>, innermost first.\<close>

fun clear_k_rels :: "string \<Rightarrow> nbr_map \<Rightarrow> nbr_map" where
  "clear_k_rels key [] = []"
| "clear_k_rels key ((k, R) # r) =
     (if k = key then clear_k_rels key r else (k, R) # clear_k_rels key r)"

fun clear_k_nbrs :: "string \<Rightarrow> vtx_map \<Rightarrow> vtx_map" where
  "clear_k_nbrs key [] = []"
| "clear_k_nbrs key ((j, N) # r) =
     (let N' = clear_k_rels key N
      in if length N' = 0 then clear_k_nbrs key r else (j, N') # clear_k_nbrs key r)"

fun clear_k_verts :: "string \<Rightarrow> table \<Rightarrow> table" where
  "clear_k_verts key [] = []"
| "clear_k_verts key ((i, V) # r) =
     (let V' = clear_k_nbrs key V
      in if length V' = 0 then clear_k_verts key r else (i, V') # clear_k_verts key r)"

definition clear_k :: "Graph \<Rightarrow> string \<Rightarrow> Graph" where
  "clear_k g key = g\<lparr>data := clear_k_verts key (data g)\<rparr>"

definition clear_all :: "Graph \<Rightarrow> Graph" where
  "clear_all g = g\<lparr>data := []\<rparr>"

section \<open>Setting\<close>

definition update :: "Graph \<Rightarrow> int \<Rightarrow> int \<Rightarrow> string \<Rightarrow> bool \<Rightarrow> real \<Rightarrow> Graph" where
  "update g i j key outward x =
     (let d = data g;
          d1 = (if map_of d i = None then m_put i [] d else d);
          d2 = (if map_of (val1 (at1 i id d1) i) j = None
                then at1 i (m_put j []) (at1 i id d1) else at1 i id d1)
      in g\<lparr>data := at3 i j key (\<lambda>R. (outward, x)) d2\<rparr>)"

definition set_ijkux :: "Graph \<Rightarrow> int \<Rightarrow> int \<Rightarrow> string \<Rightarrow> bool \<Rightarrow> real \<Rightarrow> Graph" where
  "set_ijkux g i j key undir x =
     (if \<bar>x - no_relationship g\<bar> < 1 / 10000000 then
        (if undir then clear_undir_ijk g i j key else clear_dir_ijk g i j key)
      else
        let g1 = update g i j key True x
        in if undir then update g1 j i key True x
           else if \<not> contains_ijk g1 j i key then update g1 j i key False x
           else
             let g2 = g1\<lparr>data := at3 j i key id (data g1)\<rparr>
             in if \<not> fst (val3 (data g2) j i key) then update g2 j i key False x else g2)"

definition set_ijkx :: "Graph \<Rightarrow> int \<Rightarrow> int \<Rightarrow> string \<Rightarrow> real \<Rightarrow> Graph" where
  "set_ijkx g i j key x = set_ijkux g i j key (\<not> directed g) x"

definition set_dir_ijkx :: "Graph \<Rightarrow> int \<Rightarrow> int \<Rightarrow> string \<Rightarrow> real \<Rightarrow> Graph" where
  "set_dir_ijkx g i j key x = set_ijkux g i j key False x"

definition set_undir_ijkx :: "Graph \<Rightarrow> int \<Rightarrow> int \<Rightarrow> string \<Rightarrow> real \<Rightarrow> Graph" where
  "set_undir_ijkx g i j key x = set_ijkux g i j key True x"

definition set_ijx :: "Graph \<Rightarrow> int \<Rightarrow> int \<Rightarrow> real \<Rightarrow> Graph" where
  "set_ijx g i j x = set_ijkux g i j [] (\<not> directed g) x"

definition set_dir_ijx :: "Graph \<Rightarrow> int \<Rightarrow> int \<Rightarrow> real \<Rightarrow> Graph" where
  "set_dir_ijx g i j x = set_ijkux g i j [] False x"

definition set_undir_ijx :: "Graph \<Rightarrow> int \<Rightarrow> int \<Rightarrow> real \<Rightarrow> Graph" where
  "set_undir_ijx g i j x = set_ijkux g i j [] True x"

section \<open>The public mutators as one type\<close>

text \<open>
  One constructor for each public overload of \<open>set\<close> and \<open>clear\<close>, in the order of the
  class declaration. \<open>exec\<close> runs one call and \<open>run\<close> a sequence of calls; the result is
  \<open>None\<close> only where the model of a call has no defined result.
\<close>

datatype mutation =
    Set_ijkux int int string bool real
  | Set_ijkx int int string real
  | Set_dir_ijkx int int string real
  | Set_undir_ijkx int int string real
  | Set_ijx int int real
  | Set_dir_ijx int int real
  | Set_undir_ijx int int real
  | Clear_dir_ij int int
  | Clear_undir_ij int int
  | Clear_ij int int
  | Clear_ijku int int string bool
  | Clear_dir_ijk int int string
  | Clear_undir_ijk int int string
  | Clear_ijk int int string
  | Clear_dir_ik int string
  | Clear_undir_ik int string
  | Clear_ik int string
  | Clear_i int
  | Clear_k string
  | Clear_all

fun exec :: "mutation \<Rightarrow> Graph \<Rightarrow> Graph option" where
  "exec (Set_ijkux i j key undir x) g = Some (set_ijkux g i j key undir x)"
| "exec (Set_ijkx i j key x) g = Some (set_ijkx g i j key x)"
| "exec (Set_dir_ijkx i j key x) g = Some (set_dir_ijkx g i j key x)"
| "exec (Set_undir_ijkx i j key x) g = Some (set_undir_ijkx g i j key x)"
| "exec (Set_ijx i j x) g = Some (set_ijx g i j x)"
| "exec (Set_dir_ijx i j x) g = Some (set_dir_ijx g i j x)"
| "exec (Set_undir_ijx i j x) g = Some (set_undir_ijx g i j x)"
| "exec (Clear_dir_ij i j) g = Some (clear_dir_ij g i j)"
| "exec (Clear_undir_ij i j) g = Some (clear_undir_ij g i j)"
| "exec (Clear_ij i j) g = Some (clear_ij g i j)"
| "exec (Clear_ijku i j key undir) g = Some (clear_ijku g i j key undir)"
| "exec (Clear_dir_ijk i j key) g = Some (clear_dir_ijk g i j key)"
| "exec (Clear_undir_ijk i j key) g = Some (clear_undir_ijk g i j key)"
| "exec (Clear_ijk i j key) g = Some (clear_ijk g i j key)"
| "exec (Clear_dir_ik i key) g = clear_dir_ik g i key"
| "exec (Clear_undir_ik i key) g = clear_undir_ik g i key"
| "exec (Clear_ik i key) g = clear_ik g i key"
| "exec (Clear_i i) g = clear_i g i"
| "exec (Clear_k key) g = Some (clear_k g key)"
| "exec Clear_all g = Some (clear_all g)"

fun run :: "mutation list \<Rightarrow> Graph \<Rightarrow> Graph option" where
  "run [] g = Some g"
| "run (m # ms) g = (case exec m g of None \<Rightarrow> None | Some g' \<Rightarrow> run ms g')"

section \<open>Invariants of the table\<close>

text \<open>
  A \<open>std::map\<close> holds each key once and in ascending order; \<open>wf_table\<close> says so for the
  three levels of the table. Every table that the class can hold satisfies it.
\<close>

definition sorted_keys :: "('k::linorder \<times> 'v) list \<Rightarrow> bool" where
  "sorted_keys m = sorted_wrt (<) (map fst m)"

definition wf_vtx :: "vtx_map \<Rightarrow> bool" where
  "wf_vtx V = (sorted_keys V \<and> list_all (\<lambda>(j, N). sorted_keys N) V)"

definition wf_table :: "table \<Rightarrow> bool" where
  "wf_table d = (sorted_keys d \<and> list_all (\<lambda>(i, V). wf_vtx V) d)"

text \<open>
  The mirror invariant: every entry at \<open>(i, j, key)\<close> whose outward flag is set has an
  entry at \<open>(j, i, key)\<close>. The table does not record whether two outward entries that
  face each other come from one undirected \<open>set\<close> or from two directed ones, so the
  flag and the magnitude of the mirror entry are not constrained further.
\<close>

definition mirror_inv :: "Graph \<Rightarrow> bool" where
  "mirror_inv g =
     list_all (\<lambda>(i, V).
       list_all (\<lambda>(j, N).
         list_all (\<lambda>(key, R). fst R \<longrightarrow> find3 (data g) j i key \<noteq> None) N) V) (data g)"

text \<open>
  The same invariant with the magnitude that the table can decide: where the mirror
  entry is mirror-only (the relationship runs one way), it stores the magnitude of the
  outward entry, which \<open>get\<close> then returns negated.
\<close>

definition mirror_mag_inv :: "Graph \<Rightarrow> bool" where
  "mirror_mag_inv g =
     list_all (\<lambda>(i, V).
       list_all (\<lambda>(j, N).
         list_all (\<lambda>(key, R). fst R \<longrightarrow>
           (case find3 (data g) j i key of
              None \<Rightarrow> False
            | Some R' \<Rightarrow> fst R' \<or> snd R' = snd R)) N) V) (data g)"

text \<open>The cleanup invariant: no vertex map and no neighbour map in the table is empty.\<close>

definition no_empty :: "Graph \<Rightarrow> bool" where
  "no_empty g =
     list_all (\<lambda>(i, V). length V > 0 \<and> list_all (\<lambda>(j, N). length N > 0) V) (data g)"

text \<open>
  The invariants in terms of lookups, for the proofs: \<open>minv\<close> is the mirror invariant,
  \<open>mmag\<close> the mirror invariant with magnitudes, and \<open>ne_upto d A B\<close> says that the only
  vertex maps of \<open>d\<close> that may be empty are those of the vertices in \<open>A\<close> and the only
  neighbour maps that may be empty are those of the pairs in \<open>B\<close>.
\<close>

definition minv :: "table \<Rightarrow> bool" where
  "minv d = (\<forall>i j key x. find3 d i j key = Some (True, x) \<longrightarrow> find3 d j i key \<noteq> None)"

definition mmag :: "table \<Rightarrow> bool" where
  "mmag d = (\<forall>i j key x. find3 d i j key = Some (True, x) \<longrightarrow>
     (\<exists>b y. find3 d j i key = Some (b, y) \<and> (b \<or> y = x)))"

definition ne_upto :: "table \<Rightarrow> int set \<Rightarrow> (int \<times> int) set \<Rightarrow> bool" where
  "ne_upto d A B =
     ((\<forall>a. map_of d a = Some [] \<longrightarrow> a \<in> A) \<and> (\<forall>a b. find2 d a b = Some [] \<longrightarrow> (a, b) \<in> B))"

section \<open>The sentinel test in single precision\<close>

text \<open>
  The test of \<open>set\<close> is \<open>fabs(x - no_relationship) < 0.0000001\<close> with both operands of type
  \<open>float\<close>: the difference is a binary32 value, rounded to nearest with ties to even, and
  it is compared in double precision with the double nearest to the decimal constant.
  The definition \<open>set_ijkux\<close> above takes the difference exactly; the definitions of this
  section take it as the code does (under IEEE 754 arithmetic in which an expression of
  type \<open>float\<close> is evaluated to the precision of \<open>float\<close>).

  A binary32 value is a multiple of the quantum of its binade: \<open>2^(-149)\<close> below \<open>2^(-125)\<close>,
  and \<open>2^(e-23)\<close> in \<open>[2^e, 2^(e+1))\<close> up to \<open>e = 127\<close>. The function \<open>f32_quantum\<close> searches
  the binade upwards from the subnormals, \<open>f32_round\<close> rounds a real to the nearest
  multiple of the quantum, and \<open>f32_of_real\<close> replaces a result of magnitude \<open>2^128\<close> or more
  by an infinity. The two zeros are not distinguished: the test does not tell them apart.
\<close>

fun f32_quantum :: "nat \<Rightarrow> real \<Rightarrow> real \<Rightarrow> real" where
  "f32_quantum 0 q a = q"
| "f32_quantum (Suc n) q a = (if a < q * 2 ^ 24 then q else f32_quantum n (2 * q) a)"

definition round_even :: "real \<Rightarrow> int" where
  "round_even r =
     (let f = \<lfloor>r\<rfloor>; t = r - of_int f
      in if t < 1 / 2 then f else if 1 / 2 < t then f + 1 else if even f then f else f + 1)"

definition f32_tiny :: real where
  "f32_tiny = 1 / 2 ^ 149"

definition f32_round :: "real \<Rightarrow> real" where
  "f32_round r =
     (let q = f32_quantum 253 f32_tiny \<bar>r\<bar>
      in of_int (round_even (r / q)) * q)"

datatype f32 = F32 real | PInf | NInf | NaN

definition f32_of_real :: "real \<Rightarrow> f32" where
  "f32_of_real r =
     (let v = f32_round r
      in if 2 ^ 128 \<le> v then PInf else if v \<le> - (2 ^ 128) then NInf else F32 v)"

fun f32_sub :: "f32 \<Rightarrow> f32 \<Rightarrow> f32" where
  "f32_sub NaN y = NaN"
| "f32_sub x NaN = NaN"
| "f32_sub (F32 a) (F32 b) = f32_of_real (a - b)"
| "f32_sub (F32 a) PInf = NInf"
| "f32_sub (F32 a) NInf = PInf"
| "f32_sub PInf PInf = NaN"
| "f32_sub PInf y = PInf"
| "f32_sub NInf NInf = NaN"
| "f32_sub NInf y = NInf"

text \<open>
  \<open>fabs_below d t\<close> is \<open>fabs(d) < t\<close> for a double \<open>t\<close>: the conversion of \<open>d\<close> to double is
  exact, and a comparison with an infinity on the left or with a NaN is false.
\<close>

fun fabs_below :: "f32 \<Rightarrow> real \<Rightarrow> bool" where
  "fabs_below (F32 v) t = (\<bar>v\<bar> < t)"
| "fabs_below PInf t = False"
| "fabs_below NInf t = False"
| "fabs_below NaN t = False"

text \<open>The double nearest to \<open>0.0000001\<close>, which lies a little below \<open>1/10^7\<close>.\<close>

definition tol64 :: real where
  "tol64 = 944473296573929 / 2 ^ 73"

definition sentinel_test :: "f32 \<Rightarrow> f32 \<Rightarrow> bool" where
  "sentinel_test x s = fabs_below (f32_sub x s) tol64"

text \<open>
  The table of the model stores real magnitudes, so a graph of the model has a finite
  sentinel and \<open>set\<close> receives a finite value; \<open>near_sentinel\<close> is the test on these.
\<close>

definition near_sentinel :: "real \<Rightarrow> real \<Rightarrow> bool" where
  "near_sentinel x s = sentinel_test (F32 x) (F32 s)"

definition set_ijkux_f32 :: "Graph \<Rightarrow> int \<Rightarrow> int \<Rightarrow> string \<Rightarrow> bool \<Rightarrow> real \<Rightarrow> Graph" where
  "set_ijkux_f32 g i j key undir x =
     (if near_sentinel x (no_relationship g) then
        (if undir then clear_undir_ijk g i j key else clear_dir_ijk g i j key)
      else
        let g1 = update g i j key True x
        in if undir then update g1 j i key True x
           else if \<not> contains_ijk g1 j i key then update g1 j i key False x
           else
             let g2 = g1\<lparr>data := at3 j i key id (data g1)\<rparr>
             in if \<not> fst (val3 (data g2) j i key) then update g2 j i key False x else g2)"

section \<open>Lookups after each operation\<close>

lemma eq_sym_conj [simp]:
  "(x = y \<and> y = x) = (x = y)"
  "(x = y \<and> y = x \<and> P) = (x = y \<and> P)"
  by auto

lemma map_of_m_put [simp]: "map_of (m_put k v m) = (map_of m)(k \<mapsto> v)"
  by (induction m) (auto simp: fun_eq_iff)

lemma map_of_m_erase [simp]: "map_of (m_erase k m) = (map_of m)(k := None)"
  by (induction m) (auto simp: fun_eq_iff)

lemma m_put_not_Nil [simp]: "m_put k v m \<noteq> []"
  by (cases m) (auto split: if_splits)

lemma map_of_m_at [simp]: "map_of (m_at dflt k f m) = (map_of m)(k \<mapsto> f (m_val dflt m k))"
  by (simp add: m_at_def)

lemma m_at_not_Nil [simp]: "m_at dflt k f m \<noteq> []"
  by (simp add: m_at_def)

lemma Nil_iff_map_of: "(m = []) = (\<forall>k. map_of m k = None)"
  by (cases m) (auto simp: fun_eq_iff)

lemma map_of_val1 [simp]: "map_of (val1 d i) = find2 d i"
  by (auto simp: val1_def m_val_def find2_def fun_eq_iff split: option.splits)

lemma map_of_val2 [simp]: "map_of (val2 d i j) = find3 d i j"
  by (auto simp: val2_def val1_def m_val_def find3_def fun_eq_iff split: option.splits)

lemma val3_find3: "val3 d i j k = (case find3 d i j k of None \<Rightarrow> rel0 | Some R \<Rightarrow> R)"
  by (auto simp: val3_def m_val_def split: option.splits)

lemma val2_find2: "val2 d i j = (case find2 d i j of None \<Rightarrow> [] | Some N \<Rightarrow> N)"
  by (auto simp: val2_def m_val_def split: option.splits)

lemma val1_map_of: "val1 d i = (case map_of d i of None \<Rightarrow> [] | Some V \<Rightarrow> V)"
  by (auto simp: val1_def m_val_def split: option.splits)

lemma find3_find2: "find3 d i j k = (case find2 d i j of None \<Rightarrow> None | Some N \<Rightarrow> map_of N k)"
  by (auto simp: find3_def find2_def split: option.splits)

lemma map_of_at1 [simp]: "map_of (at1 i f d) = (map_of d)(i \<mapsto> f (val1 d i))"
  by (simp add: at1_def val1_def)

lemma find2_at1 [simp]: "find2 (at1 i f d) a = (if a = i then map_of (f (val1 d i)) else find2 d a)"
  by (auto simp: find2_def fun_eq_iff)

lemma find2_m_erase [simp]: "find2 (m_erase i d) a = (if a = i then Map.empty else find2 d a)"
  by (auto simp: find2_def fun_eq_iff)

lemma find2_at2 [simp]: "find2 (at2 i j f d) a =
  (if a = i then (find2 d i)(j \<mapsto> f (val2 d i j)) else find2 d a)"
  by (auto simp: at2_def val2_def)

lemma find3_at2 [simp]: "find3 (at2 i j f d) a b =
  (if a = i \<and> b = j then map_of (f (val2 d i j)) else find3 d a b)"
  by (auto simp: find3_find2 fun_eq_iff)

lemma find3_at3 [simp]: "find3 (at3 i j k f d) a b =
  (if a = i \<and> b = j then (find3 d i j)(k \<mapsto> f (val3 d i j k)) else find3 d a b)"
  by (auto simp: at3_def val3_def)

lemma find3_at1_erase [simp]: "find3 (at1 i (m_erase j) d) a b =
  (if a = i \<and> b = j then Map.empty else find3 d a b)"
  by (auto simp: find3_find2 fun_eq_iff)

lemma find3_at1_id [simp]: "find3 (at1 i id d) = find3 d"
  by (auto simp: find3_find2 fun_eq_iff)

lemma find3_m_erase [simp]: "find3 (m_erase i d) a = (if a = i then (\<lambda>b. Map.empty) else find3 d a)"
  by (auto simp: find3_find2 fun_eq_iff)

lemma find3_prune_pair [simp]: "find3 (prune_pair i j d) = find3 d"
  by (auto simp: prune_pair_def Let_def fun_eq_iff Nil_iff_map_of)

lemma find3_prune_vertex [simp]: "find3 (prune_vertex i d) = find3 d"
  by (auto simp: prune_vertex_def Let_def fun_eq_iff Nil_iff_map_of find3_find2)

lemma find3_prune [simp]: "find3 (prune i j d) = find3 d"
  by (simp add: prune_def)

lemma get_ijk_find3: "get_ijk g i j key =
  (case find3 (data g) i j key of None \<Rightarrow> no_relationship g
   | Some R \<Rightarrow> if fst R then snd R else - snd R)"
  by (auto simp: get_ijk_def find3_def split: option.splits)

lemma contains_ijku_find3: "contains_ijku g i j key undir =
  (case find3 (data g) i j key of None \<Rightarrow> False | Some R \<Rightarrow> undir \<or> fst R)"
  by (auto simp: contains_ijku_def find3_def split: option.splits)

lemma find2_m_put [simp]: "find2 (m_put i V d) a = (if a = i then map_of V else find2 d a)"
  by (auto simp: find2_def fun_eq_iff)

lemma find3_m_put_Nil [simp]: "map_of d i = None \<Longrightarrow> find3 (m_put i [] d) = find3 d"
  by (auto simp: find3_def fun_eq_iff)

lemma find3_at1_put_Nil [simp]: "find2 d i j = None \<Longrightarrow> find3 (at1 i (m_put j []) d) = find3 d"
  by (auto simp: find3_find2 fun_eq_iff)

lemma find3_update [simp]: "find3 (data (update g i j key outward x)) a b =
  (if a = i \<and> b = j then (find3 (data g) i j)(key \<mapsto> (outward, x)) else find3 (data g) a b)"
  by (simp add: update_def Let_def)

lemma update_fields [simp]:
  "directed (update g i j key outward x) = directed g"
  "no_relationship (update g i j key outward x) = no_relationship g"
  by (simp_all add: update_def Let_def)

lemma find3_demote: "find3 (demote i j key d) a b c =
  (if a = i \<and> b = j \<and> c = key
   then Some (False, snd (val3 d j i key))
   else if a = j \<and> b = i \<and> c = key then Some (val3 d j i key)
   else find3 d a b c)"
  by (simp add: demote_def Let_def val3_find3)

lemma clear_ijku_fields [simp]:
  "directed (clear_ijku g i j key undir) = directed g"
  "no_relationship (clear_ijku g i j key undir) = no_relationship g"
  by (simp_all add: clear_ijku_def Let_def)

lemma clear_ijku_absent:
  "find3 (data g) i j key = None \<Longrightarrow> clear_ijku g i j key undir = g"
  by (simp add: clear_ijku_def contains_undir_ijk_def contains_ijku_find3)

lemma find3_clear_undir:
  assumes "find3 (data g) i j key = Some R"
  shows "find3 (data (clear_ijku g i j key True)) a b c =
    (if c = key \<and> (a = i \<and> b = j \<or> a = j \<and> b = i) then None else find3 (data g) a b c)"
  using assms
  by (auto simp add: clear_ijku_def contains_undir_ijk_def contains_ijku_find3 Let_def)

lemma find3_clear_dir_mirror:
  assumes "find3 (data g) i j key = Some (False, x)"
  shows "find3 (data (clear_ijku g i j key False)) a b c = find3 (data g) a b c"
  using assms
  by (simp add: clear_ijku_def contains_undir_ijk_def contains_ijku_find3 Let_def val3_find3)

lemma find3_clear_dir_oneway:
  assumes "find3 (data g) i j key = Some (True, x)"
    and "\<forall>y. find3 (data g) j i key \<noteq> Some (True, y)"
  shows "find3 (data (clear_ijku g i j key False)) a b c =
    (if c = key \<and> (a = i \<and> b = j \<or> a = j \<and> b = i) then None else find3 (data g) a b c)"
  using assms
  by (cases "find3 (data g) j i key")
     (auto simp add: clear_ijku_def contains_undir_ijk_def contains_ijku_find3 Let_def val3_find3 rel0_def)

lemma find3_clear_dir_twoway:
  assumes "find3 (data g) i j key = Some (True, x)"
    and "find3 (data g) j i key = Some (True, y)"
  shows "find3 (data (clear_ijku g i j key False)) a b c =
    (if a = i \<and> b = j \<and> c = key then Some (False, y) else find3 (data g) a b c)"
  using assms
  by (auto simp add: clear_ijku_def contains_undir_ijk_def contains_ijku_find3 Let_def val3_find3 find3_demote)

lemma set_ijkux_fields [simp]:
  "directed (set_ijkux g i j key undir x) = directed g"
  "no_relationship (set_ijkux g i j key undir x) = no_relationship g"
  by (simp_all add: set_ijkux_def Let_def clear_undir_ijk_def clear_dir_ijk_def)

lemma set_sentinel:
  "\<bar>x - no_relationship g\<bar> < 1 / 10000000 \<Longrightarrow>
   set_ijkux g i j key undir x = clear_ijku g i j key undir"
  by (simp add: set_ijkux_def clear_undir_ijk_def clear_dir_ijk_def)

lemma find3_set_undir:
  assumes "\<not> \<bar>x - no_relationship g\<bar> < 1 / 10000000"
  shows "find3 (data (set_ijkux g i j key True x)) a b c =
    (if c = key \<and> (a = i \<and> b = j \<or> a = j \<and> b = i) then Some (True, x) else find3 (data g) a b c)"
  using assms by (auto simp add: set_ijkux_def Let_def)

lemma find3_set_dir:
  assumes "\<not> \<bar>x - no_relationship g\<bar> < 1 / 10000000"
  shows "find3 (data (set_ijkux g i j key False x)) a b c =
    (if a = i \<and> b = j \<and> c = key then Some (True, x)
     else if a = j \<and> b = i \<and> c = key then
       (case find3 (data g) j i key of Some (True, y) \<Rightarrow> Some (True, y) | _ \<Rightarrow> Some (False, x))
     else find3 (data g) a b c)"
  using assms
  by (auto simp add: set_ijkux_def Let_def contains_ijk_def contains_ijku_find3 val3_find3
      split: option.splits bool.splits)


section \<open>Lookups through the public queries\<close>

lemma get_fields_find3:
  "find3 (data g) i j key = Some (True, x) \<Longrightarrow> get_ijk g i j key = x"
  "find3 (data g) i j key = Some (False, x) \<Longrightarrow> get_ijk g i j key = - x"
  "find3 (data g) i j key = None \<Longrightarrow> get_ijk g i j key = no_relationship g"
  by (simp_all add: get_ijk_find3)

lemma find3_Graph_new [simp]: "find3 (data (Graph_new dir x)) a b c = None"
  by (simp add: Graph_new_def find3_def)

lemma Graph_new_fields [simp]:
  "directed (Graph_new dir x) = dir" "no_relationship (Graph_new dir x) = x"
  by (simp_all add: Graph_new_def)

lemma set_dir_fields [simp]:
  "directed (set_dir_ijkx g i j key x) = directed g"
  "no_relationship (set_dir_ijkx g i j key x) = no_relationship g"
  by (simp_all add: set_dir_ijkx_def)

lemma set_undir_fields [simp]:
  "directed (set_undir_ijkx g i j key x) = directed g"
  "no_relationship (set_undir_ijkx g i j key x) = no_relationship g"
  by (simp_all add: set_undir_ijkx_def)

lemma find3_clear_undir_at:
  "find3 (data (clear_ijku g i j key True)) i j key = None"
  by (cases "find3 (data g) i j key") (simp_all add: clear_ijku_absent find3_clear_undir)

lemma find3_contains_undir_i:
  "find3 (data g) i b c = Some R \<Longrightarrow> contains_undir_i g i"
  by (auto simp: find3_def contains_undir_i_def split: option.splits)

lemma clear_ijku_no_new_entry:
  assumes "find3 (data (clear_ijku g i j key undir)) a b c \<noteq> None"
  shows "find3 (data g) a b c \<noteq> None"
proof (cases "find3 (data g) i j key")
  case None
  with assms show ?thesis by (simp add: clear_ijku_absent)
next
  case (Some R)
  obtain o1 x where R: "R = (o1, x)" by (cases R)
  show ?thesis
  proof (cases undir)
    case True
    then have u: "undir = True" by simp
    from assms show ?thesis
      unfolding u by (auto simp: find3_clear_undir [OF Some] split: if_splits)
  next
    case False
    then have dir: "undir = False" by simp
    show ?thesis
    proof (cases o1)
      case False
      with assms dir Some R show ?thesis
        by (simp add: find3_clear_dir_mirror)
    next
      case True
      with Some R have ij: "find3 (data g) i j key = Some (True, x)" by simp
      show ?thesis
      proof (cases "\<exists>y. find3 (data g) j i key = Some (True, y)")
        case True
        then obtain y where ji: "find3 (data g) j i key = Some (True, y)" by blast
        from assms ij show ?thesis
          unfolding dir
          by (auto simp: find3_clear_dir_twoway [OF ij ji] split: if_splits)
      next
        case False
        then have nji: "\<forall>y. find3 (data g) j i key \<noteq> Some (True, y)" by blast
        from assms show ?thesis
          unfolding dir
          by (auto simp: find3_clear_dir_oneway [OF ij nji] split: if_splits)
      qed
    qed
  qed
qed

lemma absent_vertex_queries:
  assumes "map_of (data g) i = None"
  shows "keys_i g i = None" and "keys_ij g i j = []"
    and "nbrs_priv g i dir limit_key key = Some []"
    and "\<not> contains_ijku g i j key undir" and "\<not> contains_dir_ij g i j"
    and "\<not> contains_undir_ij g i j" and "\<not> contains_dir_i g i" and "\<not> contains_undir_i g i"
    and "get_ijk g i j key = no_relationship g"
  using assms
  by (simp_all add: keys_i_def keys_ij_def nbrs_priv_def contains_ijku_def contains_dir_ij_def
      contains_undir_ij_def contains_dir_i_def contains_undir_i_def get_ijk_def)

lemma self_loop_set:
  assumes "\<bar>v - no_relationship g\<bar> \<ge> 1 / 10000000"
  shows "find3 (data (set_ijkux g i i key undir v)) i i key = Some (True, v)"
    and "get_ijk (set_ijkux g i i key undir v) i i key = v"
  using assms find3_set_undir [of v g i i key i i key] find3_set_dir [of v g i i key i i key]
  by (cases undir; simp add: get_ijk_find3)+

lemma self_loop_clear_dir:
  assumes "find3 (data g) i i key = Some (True, v)"
  shows "find3 (data (clear_ijku g i i key False)) i i key = Some (False, v)"
  by (simp add: find3_clear_dir_twoway [OF assms assms])

section \<open>The neighbour sets that the mutators take\<close>

lemma nbrs_test_undirected: "nbrs_test d i j UNDIRECTED lk key k R = Some (\<not> lk \<or> k = key)"
  by (simp add: nbrs_test_def)

lemma nbrs_rels_undirected: "\<exists>out'. nbrs_rels d i j UNDIRECTED lk key N out = Some out'"
  by (induction N arbitrary: out) (auto simp: nbrs_test_undirected)

lemma nbrs_loop_undirected: "\<exists>out'. nbrs_loop d i UNDIRECTED lk key V out = Some out'"
proof (induction V arbitrary: out)
  case Nil
  show ?case by simp
next
  case (Cons p V)
  obtain j N where p: "p = (j, N)" by (cases p)
  obtain o1 where o1: "nbrs_rels d i j UNDIRECTED lk key N out = Some o1"
    using nbrs_rels_undirected by blast
  show ?case using Cons.IH [of out] Cons.IH [of o1] by (auto simp add: p o1)
qed

lemma nbrs_priv_undirected: "\<exists>N. nbrs_priv g i UNDIRECTED lk key = Some N"
  using nbrs_loop_undirected by (auto simp: nbrs_priv_def split: option.splits)

lemma set_nbrs_rels:
  "nbrs_rels d i j UNDIRECTED False key N out = Some out' \<Longrightarrow>
   set out' = set out \<union> (if N = [] then {} else {j})"
  by (induction N arbitrary: out) (auto simp: nbrs_test_undirected set_insort_insert split: if_splits)

lemma set_nbrs_loop:
  "nbrs_loop d i UNDIRECTED False key V out = Some out' \<Longrightarrow>
   set out' = set out \<union> {j. \<exists>N. (j, N) \<in> set V \<and> N \<noteq> []}"
proof (induction V arbitrary: out)
  case Nil
  then show ?case by simp
next
  case (Cons p V)
  obtain j N where p: "p = (j, N)" by (cases p)
  from Cons.prems obtain o1 where o1: "nbrs_rels d i j UNDIRECTED False key N out = Some o1"
    and rest: "nbrs_loop d i UNDIRECTED False key V o1 = Some out'"
    by (auto simp: p split: option.splits)
  show ?case
    using Cons.IH [OF rest] set_nbrs_rels [OF o1] by (auto simp: p)
qed

lemma nbrs_priv_all_mem:
  assumes "nbrs_priv g i UNDIRECTED False key = Some N" and "find3 (data g) i a c = Some R"
  shows "a \<in> set N"
proof -
  from assms(2) obtain V Na where V: "map_of (data g) i = Some V" and Na: "map_of V a = Some Na"
    and c: "map_of Na c = Some R"
    by (auto simp: find3_def split: option.splits)
  from c have "Na \<noteq> []" by auto
  moreover from Na have "(a, Na) \<in> set V" by (rule map_of_SomeD)
  moreover from assms(1) V have "nbrs_loop (data g) i UNDIRECTED False key V [] = Some N"
    by (simp add: nbrs_priv_def)
  ultimately show ?thesis by (auto dest!: set_nbrs_loop)
qed

lemma exec_defined: "\<exists>g'. exec m g = Some g'"
proof (cases m)
  case (Clear_dir_ik i key)
  then show ?thesis
    using nbrs_priv_undirected [of g i False "[]"] by (auto simp: clear_dir_ik_def nbrs_i_def)
next
  case (Clear_undir_ik i key)
  then show ?thesis
    using nbrs_priv_undirected [of g i True key] by (auto simp: clear_undir_ik_def)
next
  case (Clear_ik i key)
  then show ?thesis
    using nbrs_priv_undirected [of g i True key] nbrs_priv_undirected [of g i False "[]"]
    by (auto simp: clear_ik_def clear_undir_ik_def clear_dir_ik_def nbrs_i_def)
next
  case (Clear_i i)
  then show ?thesis
    using nbrs_priv_undirected [of g i False "[]"] by (auto simp: clear_i_def)
qed simp_all

section \<open>Well-formedness of the table is preserved\<close>

lemma set_m_put: "set (m_put k v m) \<subseteq> insert (k, v) (set m)"
  by (induction m) (auto split: if_splits)

lemma keys_m_put: "fst ` set (m_put k v m) = insert k (fst ` set m)"
proof (induction m)
  case Nil
  show ?case by simp
next
  case (Cons p m)
  obtain k' v' where p: "p = (k', v')" by (cases p)
  show ?case using Cons.IH by (simp add: p insert_commute)
qed

lemma set_m_erase: "set (m_erase k m) \<subseteq> set m"
  by (induction m) (auto split: if_splits)

lemma sorted_keys_Nil [simp]: "sorted_keys []"
  by (simp add: sorted_keys_def)

lemma sorted_keys_Cons:
  "sorted_keys ((k, v) # m) = ((\<forall>k' \<in> fst ` set m. k < k') \<and> sorted_keys m)"
  by (auto simp: sorted_keys_def)

lemma sorted_keys_m_put: "sorted_keys m \<Longrightarrow> sorted_keys (m_put k v m)"
proof (induction m)
  case Nil
  then show ?case by (simp add: sorted_keys_def)
next
  case (Cons p m)
  obtain k' v' where p: "p = (k', v')" by (cases p)
  from Cons.prems have lt: "\<forall>x \<in> fst ` set m. k' < x" and sm: "sorted_keys m"
    by (simp_all add: p sorted_keys_Cons)
  show ?case
  proof (cases "k < k'")
    case True
    with lt sm show ?thesis
      by (auto simp: p sorted_keys_Cons)
  next
    case False
    show ?thesis
    proof (cases "k = k'")
      case True
      with lt sm show ?thesis by (auto simp: p sorted_keys_Cons)
    next
      case ne: False
      with False have "k' < k" by simp
      with lt sm Cons.IH show ?thesis
        by (auto simp: p sorted_keys_Cons keys_m_put)
    qed
  qed
qed

lemma sorted_keys_m_erase: "sorted_keys m \<Longrightarrow> sorted_keys (m_erase k m)"
proof (induction m)
  case Nil
  then show ?case by simp
next
  case (Cons p m)
  obtain k' v' where p: "p = (k', v')" by (cases p)
  from Cons.prems have lt: "\<forall>x \<in> fst ` set m. k' < x" and sm: "sorted_keys m"
    by (simp_all add: p sorted_keys_Cons)
  have "fst ` set (m_erase k m) \<subseteq> fst ` set m"
    using set_m_erase [of k m] by auto
  with lt sm Cons.IH show ?case
    by (fastforce simp: p sorted_keys_Cons)
qed

lemma sorted_keys_distinct: "sorted_keys m \<Longrightarrow> distinct (map fst m)"
  by (simp add: sorted_keys_def strict_sorted_iff)

lemma sorted_keys_map_of:
  "sorted_keys m \<Longrightarrow> (k, v) \<in> set m \<Longrightarrow> map_of m k = Some v"
  by (simp add: sorted_keys_distinct)

lemma sorted_keys_m_at:
  "sorted_keys m \<Longrightarrow> sorted_keys (m_at dflt k f m)"
  by (simp add: m_at_def sorted_keys_m_put)

lemma wf_vtx_Nil [simp]: "wf_vtx []"
  by (simp add: wf_vtx_def)

lemma wf_table_Nil [simp]: "wf_table []"
  by (simp add: wf_table_def)

lemma wf_vtx_iff:
  "wf_vtx V = (sorted_keys V \<and> (\<forall>j N. (j, N) \<in> set V \<longrightarrow> sorted_keys N))"
  by (auto simp: wf_vtx_def list_all_iff)

lemma wf_table_iff:
  "wf_table d = (sorted_keys d \<and> (\<forall>i V. (i, V) \<in> set d \<longrightarrow> wf_vtx V))"
  by (auto simp: wf_table_def list_all_iff)

lemma wf_vtx_m_put: "wf_vtx V \<Longrightarrow> sorted_keys N \<Longrightarrow> wf_vtx (m_put j N V)"
  using set_m_put [of j N V] by (auto simp: wf_vtx_iff sorted_keys_m_put)

lemma wf_vtx_m_erase: "wf_vtx V \<Longrightarrow> wf_vtx (m_erase j V)"
  using set_m_erase [of j V] by (auto simp: wf_vtx_iff sorted_keys_m_erase)

lemma wf_table_m_put: "wf_table d \<Longrightarrow> wf_vtx V \<Longrightarrow> wf_table (m_put i V d)"
  using set_m_put [of i V d] by (auto simp: wf_table_iff sorted_keys_m_put)

lemma wf_table_m_erase: "wf_table d \<Longrightarrow> wf_table (m_erase i d)"
  using set_m_erase [of i d] by (auto simp: wf_table_iff sorted_keys_m_erase)

lemma wf_vtx_val: "wf_vtx V \<Longrightarrow> sorted_keys (m_val [] V j)"
  by (auto simp: m_val_def wf_vtx_iff split: option.splits dest: map_of_SomeD)

lemma wf_table_val1: "wf_table d \<Longrightarrow> wf_vtx (val1 d i)"
  by (auto simp: val1_def m_val_def wf_table_iff split: option.splits dest: map_of_SomeD)

lemma wf_table_val2: "wf_table d \<Longrightarrow> sorted_keys (val2 d i j)"
  by (simp add: val2_def wf_vtx_val wf_table_val1)

lemma wf_vtx_m_at:
  "wf_vtx V \<Longrightarrow> (\<And>N. sorted_keys N \<Longrightarrow> sorted_keys (f N)) \<Longrightarrow> wf_vtx (m_at [] j f V)"
  by (simp add: m_at_def wf_vtx_m_put wf_vtx_val)

lemma wf_table_at1:
  "wf_table d \<Longrightarrow> (\<And>V. wf_vtx V \<Longrightarrow> wf_vtx (f V)) \<Longrightarrow> wf_table (at1 i f d)"
  using wf_table_val1 [of d i] by (simp add: at1_def m_at_def wf_table_m_put val1_def)

lemma wf_table_at2:
  "wf_table d \<Longrightarrow> (\<And>N. sorted_keys N \<Longrightarrow> sorted_keys (f N)) \<Longrightarrow> wf_table (at2 i j f d)"
  by (simp add: at2_def wf_table_at1 wf_vtx_m_at)

lemma wf_table_at3: "wf_table d \<Longrightarrow> wf_table (at3 i j k f d)"
  by (simp add: at3_def wf_table_at2 sorted_keys_m_at)

lemma wf_table_at2_erase: "wf_table d \<Longrightarrow> wf_table (at2 i j (m_erase k) d)"
  by (simp add: wf_table_at2 sorted_keys_m_erase)

lemma wf_table_at2_id: "wf_table d \<Longrightarrow> wf_table (at2 i j id d)"
  by (simp add: wf_table_at2)

lemma wf_table_at1_erase: "wf_table d \<Longrightarrow> wf_table (at1 i (m_erase j) d)"
  by (simp add: wf_table_at1 wf_vtx_m_erase)

lemma wf_table_at1_id: "wf_table d \<Longrightarrow> wf_table (at1 i id d)"
  by (simp add: wf_table_at1)

lemma wf_table_at1_put: "wf_table d \<Longrightarrow> wf_table (at1 i (m_put j []) d)"
  by (simp add: wf_table_at1 wf_vtx_m_put)

lemmas wf_prims = wf_table_at3 wf_table_at2_erase wf_table_at2_id wf_table_at1_erase
  wf_table_at1_id wf_table_at1_put wf_table_m_erase wf_table_m_put

lemma wf_table_prune_pair: "wf_table d \<Longrightarrow> wf_table (prune_pair i j d)"
  by (simp add: prune_pair_def Let_def wf_prims)

lemma wf_table_prune_vertex: "wf_table d \<Longrightarrow> wf_table (prune_vertex i d)"
  by (simp add: prune_vertex_def Let_def wf_prims)

lemma wf_table_prune: "wf_table d \<Longrightarrow> wf_table (prune i j d)"
  by (simp add: prune_def wf_table_prune_pair wf_table_prune_vertex)

lemma wf_table_demote: "wf_table d \<Longrightarrow> wf_table (demote i j key d)"
  by (simp add: demote_def Let_def wf_prims)

lemma wf_table_update: "wf_table (data g) \<Longrightarrow> wf_table (data (update g i j key outward x))"
  by (simp add: update_def Let_def wf_prims)

lemma wf_table_clear_ijku: "wf_table (data g) \<Longrightarrow> wf_table (data (clear_ijku g i j key undir))"
  by (simp add: clear_ijku_def Let_def wf_prims wf_table_prune wf_table_demote)

lemma wf_table_set_ijkux: "wf_table (data g) \<Longrightarrow> wf_table (data (set_ijkux g i j key undir x))"
  by (simp add: set_ijkux_def Let_def wf_prims wf_table_update wf_table_clear_ijku
      clear_undir_ijk_def clear_dir_ijk_def)

lemma wf_table_clear_dir_body: "wf_table d \<Longrightarrow> wf_table (clear_dir_body i j k R d)"
  by (simp add: clear_dir_body_def Let_def wf_prims wf_table_demote)

lemma wf_table_clear_dir_loop: "wf_table d \<Longrightarrow> wf_table (clear_dir_loop i j N d)"
  by (induction N arbitrary: d) (auto simp: wf_table_clear_dir_body)

lemma wf_table_clear_dir_ij: "wf_table (data g) \<Longrightarrow> wf_table (data (clear_dir_ij g i j))"
  by (simp add: clear_dir_ij_def Let_def wf_prims wf_table_prune wf_table_clear_dir_loop)

lemma wf_table_clear_undir_ij: "wf_table (data g) \<Longrightarrow> wf_table (data (clear_undir_ij g i j))"
  by (simp add: clear_undir_ij_def Let_def wf_prims wf_table_prune_vertex)

lemma wf_table_clear_i_step: "wf_table d \<Longrightarrow> wf_table (clear_i_step i n d)"
  by (simp add: clear_i_step_def Let_def wf_prims)

lemma wf_table_fold_clear_i_step: "wf_table d \<Longrightarrow> wf_table (fold (clear_i_step i) N d)"
  by (induction N arbitrary: d) (simp_all add: wf_table_clear_i_step)

lemma clear_k_rels_eq: "clear_k_rels key N = m_erase key N"
  by (induction N) auto

lemma set_clear_k_nbrs:
  "(j, N') \<in> set (clear_k_nbrs key V) \<Longrightarrow>
   \<exists>N. (j, N) \<in> set V \<and> N' = m_erase key N \<and> N' \<noteq> []"
  by (induction V) (force simp: Let_def clear_k_rels_eq split: if_splits)+

lemma sorted_keys_clear_k_nbrs: "sorted_keys V \<Longrightarrow> sorted_keys (clear_k_nbrs key V)"
proof (induction V)
  case Nil
  then show ?case by simp
next
  case (Cons p V)
  obtain j N where p: "p = (j, N)" by (cases p)
  from Cons.prems have lt: "\<forall>x \<in> fst ` set V. j < x" and sm: "sorted_keys V"
    by (simp_all add: p sorted_keys_Cons)
  have "fst ` set (clear_k_nbrs key V) \<subseteq> fst ` set V"
    by (force dest: set_clear_k_nbrs)
  with lt sm Cons.IH show ?case
    by (fastforce simp: p sorted_keys_Cons Let_def)
qed

lemma wf_vtx_clear_k_nbrs: "wf_vtx V \<Longrightarrow> wf_vtx (clear_k_nbrs key V)"
  by (auto simp: wf_vtx_iff sorted_keys_clear_k_nbrs sorted_keys_m_erase dest!: set_clear_k_nbrs)

lemma set_clear_k_verts:
  "(i, V') \<in> set (clear_k_verts key d) \<Longrightarrow>
   \<exists>V. (i, V) \<in> set d \<and> V' = clear_k_nbrs key V \<and> V' \<noteq> []"
  by (induction d) (force simp: Let_def split: if_splits)+

lemma sorted_keys_clear_k_verts: "sorted_keys d \<Longrightarrow> sorted_keys (clear_k_verts key d)"
proof (induction d)
  case Nil
  then show ?case by simp
next
  case (Cons p d)
  obtain i V where p: "p = (i, V)" by (cases p)
  from Cons.prems have lt: "\<forall>x \<in> fst ` set d. i < x" and sm: "sorted_keys d"
    by (simp_all add: p sorted_keys_Cons)
  have "fst ` set (clear_k_verts key d) \<subseteq> fst ` set d"
    by (force dest: set_clear_k_verts)
  with lt sm Cons.IH show ?case
    by (fastforce simp: p sorted_keys_Cons Let_def)
qed

lemma wf_table_clear_k_verts: "wf_table d \<Longrightarrow> wf_table (clear_k_verts key d)"
  by (auto simp: wf_table_iff sorted_keys_clear_k_verts wf_vtx_clear_k_nbrs dest!: set_clear_k_verts)

lemma wf_table_fold_clear_ijku:
  "wf_table (data g) \<Longrightarrow> wf_table (data (fold (\<lambda>n g'. clear_ijku g' i n key undir) N g))"
  by (induction N arbitrary: g) (simp_all add: wf_table_clear_ijku)

lemma wf_exec:
  assumes "wf_table (data g)" and "exec m g = Some g'"
  shows "wf_table (data g')"
proof (cases m)
  case (Clear_dir_ik i key)
  with assms show ?thesis
    by (auto simp: clear_dir_ik_def clear_dir_ijk_def wf_table_fold_clear_ijku split: option.splits)
next
  case (Clear_undir_ik i key)
  with assms show ?thesis
    by (auto simp: clear_undir_ik_def clear_undir_ijk_def wf_table_fold_clear_ijku split: option.splits)
next
  case (Clear_ik i key)
  with assms show ?thesis
    by (auto simp: clear_ik_def clear_dir_ik_def clear_undir_ik_def clear_dir_ijk_def clear_undir_ijk_def
        wf_table_fold_clear_ijku split: option.splits if_splits)
next
  case (Clear_i i)
  with assms show ?thesis
    by (auto simp: clear_i_def wf_table_fold_clear_i_step wf_table_m_erase split: option.splits if_splits)
qed (use assms in \<open>auto simp: wf_table_set_ijkux wf_table_clear_ijku wf_table_clear_dir_ij
      wf_table_clear_undir_ij wf_table_clear_k_verts set_ijkx_def set_dir_ijkx_def set_undir_ijkx_def
      set_ijx_def set_dir_ijx_def set_undir_ijx_def clear_ij_def clear_dir_ijk_def clear_undir_ijk_def
      clear_ijk_def clear_k_def clear_all_def\<close>)

section \<open>The invariants in terms of lookups\<close>

lemma find3_SomeD:
  "find3 d i j k = Some R \<Longrightarrow> \<exists>V N. (i, V) \<in> set d \<and> (j, N) \<in> set V \<and> (k, R) \<in> set N"
  by (auto simp: find3_def split: option.splits dest: map_of_SomeD)

lemma find3_SomeI:
  "wf_table d \<Longrightarrow> (i, V) \<in> set d \<Longrightarrow> (j, N) \<in> set V \<Longrightarrow> (k, R) \<in> set N \<Longrightarrow>
   find3 d i j k = Some R"
  by (auto simp: find3_def wf_table_iff wf_vtx_iff sorted_keys_map_of split: option.splits)

lemma find2_SomeI:
  "wf_table d \<Longrightarrow> (i, V) \<in> set d \<Longrightarrow> (j, N) \<in> set V \<Longrightarrow> find2 d i j = Some N"
  by (auto simp: find2_def wf_table_iff wf_vtx_iff sorted_keys_map_of split: option.splits)

lemma mirror_inv_minv: "mirror_inv g \<Longrightarrow> minv (data g)"
  unfolding mirror_inv_def minv_def list_all_iff
  by (fastforce dest!: find3_SomeD)

lemma minv_mirror_inv: "wf_table (data g) \<Longrightarrow> minv (data g) \<Longrightarrow> mirror_inv g"
  unfolding mirror_inv_def minv_def list_all_iff
  by (fastforce dest: find3_SomeI)

lemma no_empty_ne: "no_empty g \<Longrightarrow> ne_upto (data g) {} {}"
  unfolding no_empty_def ne_upto_def list_all_iff
  by (fastforce simp: find2_def split: option.splits dest: map_of_SomeD)

lemma ne_no_empty:
  assumes wf: "wf_table (data g)" and ne: "ne_upto (data g) {} {}"
  shows "no_empty g"
proof -
  have "V \<noteq> []" if "(i, V) \<in> set (data g)" for i V
  proof
    assume "V = []"
    with that wf have "map_of (data g) i = Some []"
      by (simp add: wf_table_iff sorted_keys_map_of)
    with ne show False by (simp add: ne_upto_def)
  qed
  moreover have "N \<noteq> []" if "(i, V) \<in> set (data g)" "(j, N) \<in> set V" for i V j N
  proof
    assume "N = []"
    with that wf have "find2 (data g) i j = Some []"
      by (simp add: find2_SomeI)
    with ne show False by (simp add: ne_upto_def)
  qed
  ultimately show ?thesis
    unfolding no_empty_def list_all_iff by fastforce
qed

section \<open>The mirror invariant is preserved\<close>

lemma minv_clear_ijku:
  assumes "minv (data g)"
  shows "minv (data (clear_ijku g i j key undir))"
proof (cases "find3 (data g) i j key")
  case None
  with assms show ?thesis by (simp add: clear_ijku_absent)
next
  case (Some R)
  obtain o1 x where R: "R = (o1, x)" by (cases R)
  show ?thesis
  proof (cases undir)
    case True
    then have u: "undir = True" by simp
    from assms show ?thesis
      unfolding minv_def u by (auto simp: find3_clear_undir [OF Some] split: if_splits)
  next
    case False
    then have dir: "undir = False" by simp
    show ?thesis
    proof (cases o1)
      case False
      with assms dir Some R show ?thesis
        unfolding minv_def by (simp add: find3_clear_dir_mirror)
    next
      case True
      with Some R have ij: "find3 (data g) i j key = Some (True, x)" by simp
      show ?thesis
      proof (cases "\<exists>y. find3 (data g) j i key = Some (True, y)")
        case True
        then obtain y where ji: "find3 (data g) j i key = Some (True, y)" by blast
        from assms show ?thesis
          unfolding minv_def dir
          by (auto simp: find3_clear_dir_twoway [OF ij ji] split: if_splits)
      next
        case False
        then have nji: "\<forall>y. find3 (data g) j i key \<noteq> Some (True, y)" by blast
        from assms show ?thesis
          unfolding minv_def dir
          by (auto simp: find3_clear_dir_oneway [OF ij nji] split: if_splits)
      qed
    qed
  qed
qed

lemma minv_set_ijkux:
  assumes "minv (data g)"
  shows "minv (data (set_ijkux g i j key undir x))"
proof (cases "\<bar>x - no_relationship g\<bar> < 1 / 10000000")
  case True
  with assms show ?thesis by (simp add: set_sentinel minv_clear_ijku)
next
  case ns: False
  show ?thesis
  proof (cases undir)
    case True
    then have u: "undir = True" by simp
    from assms show ?thesis
      unfolding minv_def u by (auto simp: find3_set_undir [OF ns] split: if_splits)
  next
    case False
    then have dir: "undir = False" by simp
    from assms show ?thesis
      unfolding minv_def dir
      by (auto simp: find3_set_dir [OF ns] split: if_splits option.splits bool.splits)
  qed
qed

lemma find3_clear_dir_body_skip:
  "\<not> fst R \<Longrightarrow> clear_dir_body i j k R d = d"
  by (simp add: clear_dir_body_def)

lemma find3_clear_dir_body_twoway:
  assumes "fst R" and "find3 d j i k = Some (True, y)"
  shows "find3 (clear_dir_body i j k R d) a b c =
     (if a = i \<and> b = j \<and> c = k then Some (False, y) else find3 d a b c)"
  using assms by (simp add: clear_dir_body_def Let_def val3_find3 find3_demote)

lemma find3_clear_dir_body_oneway:
  assumes "fst R" and "\<forall>y. find3 d j i k \<noteq> Some (True, y)"
  shows "find3 (clear_dir_body i j k R d) a b c =
     (if c = k \<and> (a = i \<and> b = j \<or> a = j \<and> b = i) then None else find3 d a b c)"
proof (cases "find3 d j i k")
  case None
  with assms show ?thesis
    by (auto simp add: clear_dir_body_def Let_def val3_find3 rel0_def)
next
  case (Some R')
  with assms have "\<not> fst R'" by (cases R') auto
  with assms Some show ?thesis
    by (auto simp add: clear_dir_body_def Let_def val3_find3)
qed

lemma minv_clear_dir_body: "minv d \<Longrightarrow> minv (clear_dir_body i j k R d)"
proof (cases "fst R")
  case False
  then show "minv d \<Longrightarrow> ?thesis" by (simp add: find3_clear_dir_body_skip)
next
  case True
  assume m: "minv d"
  show ?thesis
  proof (cases "\<exists>y. find3 d j i k = Some (True, y)")
    case True
    then obtain y where ji: "find3 d j i k = Some (True, y)" by blast
    from m show ?thesis
      unfolding minv_def
      by (auto simp: find3_clear_dir_body_twoway [OF \<open>fst R\<close> ji] split: if_splits)
  next
    case False
    then have nji: "\<forall>y. find3 d j i k \<noteq> Some (True, y)" by blast
    from m show ?thesis
      unfolding minv_def
      by (auto simp: find3_clear_dir_body_oneway [OF \<open>fst R\<close> nji] split: if_splits)
  qed
qed

lemma minv_clear_dir_loop: "minv d \<Longrightarrow> minv (clear_dir_loop i j N d)"
  by (induction N arbitrary: d) (auto simp: minv_clear_dir_body)

lemma minv_find3_cong: "find3 d' = find3 d \<Longrightarrow> minv d' = minv d"
  by (simp add: minv_def)

lemma find3_at2_id [simp]: "find3 (at2 i j id d) = find3 d"
  by (auto simp: fun_eq_iff)

lemma minv_clear_dir_ij: "minv (data g) \<Longrightarrow> minv (data (clear_dir_ij g i j))"
  by (simp add: clear_dir_ij_def Let_def minv_clear_dir_loop minv_find3_cong [of "prune _ _ _"]
      minv_find3_cong [of "at2 _ _ id _"])

lemma find3_clear_undir_ij:
  "find3 (data (clear_undir_ij g i j)) a b c =
     (if contains_undir_ij g i j \<and> (a = i \<and> b = j \<or> a = j \<and> b = i) then None
      else find3 (data g) a b c)"
  by (auto simp: clear_undir_ij_def Let_def)

lemma minv_clear_undir_ij: "minv (data g) \<Longrightarrow> minv (data (clear_undir_ij g i j))"
  unfolding minv_def
  by (auto simp: find3_clear_undir_ij split: if_splits)

lemma minv_fold_clear_ijku:
  "minv (data g) \<Longrightarrow> minv (data (fold (\<lambda>n g'. clear_ijku g' i n key undir) N g))"
  by (induction N arbitrary: g) (simp_all add: minv_clear_ijku)

lemma find3_clear_i_step:
  "find3 (clear_i_step i n d) a b c = (if a = n \<and> b = i then None else find3 d a b c)"
proof (cases "map_of d n")
  case None
  then show ?thesis by (simp add: clear_i_step_def find3_def)
next
  case (Some V)
  have e: "find3 d' n b c = None" if "val1 d' n = []" for d'
  proof -
    from that have "find2 d' n b = None"
      using map_of_val1 [of d' n] by (metis map_of.simps(1))
    then show ?thesis by (simp add: find3_find2)
  qed
  from Some show ?thesis
    by (auto simp: clear_i_step_def Let_def dest: e)
qed

lemma find3_fold_clear_i_step:
  "find3 (fold (clear_i_step i) N d) a b c =
     (if a \<in> set N \<and> b = i then None else find3 d a b c)"
  by (induction N arbitrary: d) (auto simp: find3_clear_i_step)

lemma minv_clear_i:
  assumes "minv (data g)" and "clear_i g i = Some g'"
  shows "minv (data g')"
proof (cases "contains_undir_i g i")
  case False
  with assms show ?thesis by (simp add: clear_i_def)
next
  case True
  with assms(2) obtain N where N: "nbrs_priv g i UNDIRECTED False [] = Some N"
    and g': "g' = g\<lparr>data := fold (clear_i_step i) N (m_erase i (data g))\<rparr>"
    by (auto simp: clear_i_def split: option.splits)
  have f: "find3 (data g') a b c =
      (if a = i \<or> (a \<in> set N \<and> b = i) then None else find3 (data g) a b c)" for a b c
    by (simp add: g' find3_fold_clear_i_step)
  show ?thesis
    unfolding minv_def
  proof (intro allI impI)
    fix a b c x
    assume h: "find3 (data g') a b c = Some (True, x)"
    then have a: "a \<noteq> i" and ab: "\<not> (a \<in> set N \<and> b = i)"
      and old: "find3 (data g) a b c = Some (True, x)"
      by (auto simp: f split: if_splits)
    from assms(1) old have "find3 (data g) b a c \<noteq> None"
      unfolding minv_def by blast
    then obtain R where R: "find3 (data g) b a c = Some R"
      by blast
    have "b \<noteq> i"
    proof
      assume "b = i"
      with R have "a \<in> set N" using nbrs_priv_all_mem [OF N] by simp
      with ab \<open>b = i\<close> show False by simp
    qed
    with a R show "find3 (data g') b a c \<noteq> None" by (simp add: f)
  qed
qed

lemma map_of_None_sorted:
  fixes k :: "'k::linorder"
  shows "\<forall>k' \<in> fst ` set m. k < k' \<Longrightarrow> map_of m k = None"
  by (force simp: map_of_eq_None_iff)

lemma map_of_clear_k_nbrs:
  "sorted_keys V \<Longrightarrow>
   map_of (clear_k_nbrs key V) b =
     (case map_of V b of None \<Rightarrow> None
      | Some N \<Rightarrow> if m_erase key N = [] then None else Some (m_erase key N))"
proof (induction V)
  case Nil
  show ?case by simp
next
  case (Cons p V)
  obtain j N where p: "p = (j, N)" by (cases p)
  from Cons.prems have lt: "\<forall>x \<in> fst ` set V. j < x" and sm: "sorted_keys V"
    by (simp_all add: p sorted_keys_Cons)
  have sub: "fst ` set (clear_k_nbrs key V) \<subseteq> fst ` set V"
    by (force dest: set_clear_k_nbrs)
  with lt have "map_of (clear_k_nbrs key V) j = None"
    by (intro map_of_None_sorted) blast
  with Cons.IH [OF sm] show ?case
    by (auto simp: p Let_def clear_k_rels_eq)
qed

lemma map_of_clear_k_verts:
  "sorted_keys d \<Longrightarrow>
   map_of (clear_k_verts key d) a =
     (case map_of d a of None \<Rightarrow> None
      | Some V \<Rightarrow> if clear_k_nbrs key V = [] then None else Some (clear_k_nbrs key V))"
proof (induction d)
  case Nil
  show ?case by simp
next
  case (Cons p d)
  obtain i V where p: "p = (i, V)" by (cases p)
  from Cons.prems have lt: "\<forall>x \<in> fst ` set d. i < x" and sm: "sorted_keys d"
    by (simp_all add: p sorted_keys_Cons)
  have sub: "fst ` set (clear_k_verts key d) \<subseteq> fst ` set d"
    by (force dest: set_clear_k_verts)
  with lt have "map_of (clear_k_verts key d) i = None"
    by (intro map_of_None_sorted) blast
  with Cons.IH [OF sm] show ?case
    by (auto simp: p Let_def)
qed

lemma find3_clear_k_verts:
  assumes "wf_table d"
  shows "find3 (clear_k_verts key d) a b c = (if c = key then None else find3 d a b c)"
proof (cases "map_of d a")
  case None
  with assms show ?thesis
    by (simp add: find3_def map_of_clear_k_verts wf_table_iff)
next
  case (Some V)
  with assms have wfV: "sorted_keys V"
    by (auto simp: wf_table_iff wf_vtx_iff dest: map_of_SomeD)
  have nb: "map_of (clear_k_nbrs key V) b =
      (case map_of V b of None \<Rightarrow> None
       | Some N \<Rightarrow> if m_erase key N = [] then None else Some (m_erase key N))" for b
    by (rule map_of_clear_k_nbrs [OF wfV])
  show ?thesis
  proof (cases "map_of V b")
    case None
    with Some assms show ?thesis
      by (simp add: find3_def map_of_clear_k_verts wf_table_iff nb)
  next
    case N: (Some N)
    show ?thesis
    proof (cases "m_erase key N = []")
      case True
      then have "map_of (m_erase key N) c = None" by simp
      then have "c \<noteq> key \<Longrightarrow> map_of N c = None" by simp
      with Some N True assms show ?thesis
        by (simp add: find3_def map_of_clear_k_verts wf_table_iff nb)
    next
      case False
      with N have "map_of (clear_k_nbrs key V) b \<noteq> None" by (simp add: nb)
      then have "clear_k_nbrs key V \<noteq> []" by auto
      with Some N False assms show ?thesis
        by (simp add: find3_def map_of_clear_k_verts wf_table_iff nb)
    qed
  qed
qed

lemma minv_clear_k:
  "wf_table (data g) \<Longrightarrow> minv (data g) \<Longrightarrow> minv (data (clear_k g key))"
  unfolding minv_def by (simp add: clear_k_def find3_clear_k_verts)

lemma minv_Nil [simp]: "minv []"
  by (simp add: minv_def find3_def)

lemma minv_exec:
  assumes "wf_table (data g)" and "minv (data g)" and "exec m g = Some g'"
  shows "minv (data g')"
proof (cases m)
  case (Clear_dir_ik i key)
  with assms show ?thesis
    by (auto simp: clear_dir_ik_def clear_dir_ijk_def minv_fold_clear_ijku split: option.splits)
next
  case (Clear_undir_ik i key)
  with assms show ?thesis
    by (auto simp: clear_undir_ik_def clear_undir_ijk_def minv_fold_clear_ijku split: option.splits)
next
  case (Clear_ik i key)
  with assms show ?thesis
    by (auto simp: clear_ik_def clear_dir_ik_def clear_undir_ik_def clear_dir_ijk_def clear_undir_ijk_def
        minv_fold_clear_ijku split: option.splits if_splits)
next
  case (Clear_i i)
  with assms show ?thesis
    by (auto intro: minv_clear_i)
qed (use assms in \<open>auto simp: minv_set_ijkux minv_clear_ijku minv_clear_dir_ij
      minv_clear_undir_ij minv_clear_k set_ijkx_def set_dir_ijkx_def set_undir_ijkx_def
      set_ijx_def set_dir_ijx_def set_undir_ijx_def clear_ij_def clear_dir_ijk_def clear_undir_ijk_def
      clear_ijk_def clear_all_def\<close>)

section \<open>The mirror invariant with magnitudes is preserved\<close>

lemma mirror_mag_inv_mmag: "mirror_mag_inv g \<Longrightarrow> mmag (data g)"
  unfolding mirror_mag_inv_def mmag_def list_all_iff
  by (fastforce dest!: find3_SomeD split: option.splits)

lemma mmag_mirror_mag_inv: "wf_table (data g) \<Longrightarrow> mmag (data g) \<Longrightarrow> mirror_mag_inv g"
  unfolding mirror_mag_inv_def mmag_def list_all_iff
  by (fastforce dest: find3_SomeI split: option.splits)

lemma mmag_clear_ijku:
  assumes "mmag (data g)"
  shows "mmag (data (clear_ijku g i j key undir))"
proof (cases "find3 (data g) i j key")
  case None
  with assms show ?thesis by (simp add: clear_ijku_absent)
next
  case (Some R)
  obtain o1 x where R: "R = (o1, x)" by (cases R)
  show ?thesis
  proof (cases undir)
    case True
    then have u: "undir = True" by simp
    from assms show ?thesis
      unfolding mmag_def u by (auto simp: find3_clear_undir [OF Some] split: if_splits)
  next
    case False
    then have dir: "undir = False" by simp
    show ?thesis
    proof (cases o1)
      case False
      with assms dir Some R show ?thesis
        unfolding mmag_def by (simp add: find3_clear_dir_mirror)
    next
      case True
      with Some R have ij: "find3 (data g) i j key = Some (True, x)" by simp
      show ?thesis
      proof (cases "\<exists>y. find3 (data g) j i key = Some (True, y)")
        case True
        then obtain y where ji: "find3 (data g) j i key = Some (True, y)" by blast
        from assms ji show ?thesis
          unfolding mmag_def dir
          by (auto simp: find3_clear_dir_twoway [OF ij ji] split: if_splits)
      next
        case False
        then have nji: "\<forall>y. find3 (data g) j i key \<noteq> Some (True, y)" by blast
        from assms show ?thesis
          unfolding mmag_def dir
          by (auto simp: find3_clear_dir_oneway [OF ij nji] split: if_splits)
      qed
    qed
  qed
qed

lemma mmag_set_ijkux:
  assumes "mmag (data g)"
  shows "mmag (data (set_ijkux g i j key undir x))"
proof (cases "\<bar>x - no_relationship g\<bar> < 1 / 10000000")
  case True
  with assms show ?thesis by (simp add: set_sentinel mmag_clear_ijku)
next
  case ns: False
  show ?thesis
  proof (cases undir)
    case True
    then have u: "undir = True" by simp
    from assms show ?thesis
      unfolding mmag_def u by (auto simp: find3_set_undir [OF ns] split: if_splits)
  next
    case False
    then have dir: "undir = False" by simp
    from assms show ?thesis
      unfolding mmag_def dir
      by (auto simp: find3_set_dir [OF ns] split: if_splits option.splits bool.splits)
  qed
qed

lemma mmag_clear_dir_body: "mmag d \<Longrightarrow> mmag (clear_dir_body i j k R d)"
proof (cases "fst R")
  case False
  then show "mmag d \<Longrightarrow> ?thesis" by (simp add: find3_clear_dir_body_skip)
next
  case True
  assume m: "mmag d"
  show ?thesis
  proof (cases "\<exists>y. find3 d j i k = Some (True, y)")
    case True
    then obtain y where ji: "find3 d j i k = Some (True, y)" by blast
    from m ji show ?thesis
      unfolding mmag_def
      by (auto simp: find3_clear_dir_body_twoway [OF \<open>fst R\<close> ji] split: if_splits)
  next
    case False
    then have nji: "\<forall>y. find3 d j i k \<noteq> Some (True, y)" by blast
    from m show ?thesis
      unfolding mmag_def
      by (auto simp: find3_clear_dir_body_oneway [OF \<open>fst R\<close> nji] split: if_splits)
  qed
qed

lemma mmag_clear_dir_loop: "mmag d \<Longrightarrow> mmag (clear_dir_loop i j N d)"
  by (induction N arbitrary: d) (auto simp: mmag_clear_dir_body)

lemma mmag_find3_cong: "find3 d' = find3 d \<Longrightarrow> mmag d' = mmag d"
  by (simp add: mmag_def)

lemma mmag_clear_dir_ij: "mmag (data g) \<Longrightarrow> mmag (data (clear_dir_ij g i j))"
  by (simp add: clear_dir_ij_def Let_def mmag_clear_dir_loop mmag_find3_cong [of "prune _ _ _"]
      mmag_find3_cong [of "at2 _ _ id _"])

lemma mmag_clear_undir_ij: "mmag (data g) \<Longrightarrow> mmag (data (clear_undir_ij g i j))"
  unfolding mmag_def
  by (auto simp: find3_clear_undir_ij split: if_splits)

lemma mmag_fold_clear_ijku:
  "mmag (data g) \<Longrightarrow> mmag (data (fold (\<lambda>n g'. clear_ijku g' i n key undir) N g))"
  by (induction N arbitrary: g) (simp_all add: mmag_clear_ijku)

lemma mmag_clear_i:
  assumes "mmag (data g)" and "clear_i g i = Some g'"
  shows "mmag (data g')"
proof (cases "contains_undir_i g i")
  case False
  with assms show ?thesis by (simp add: clear_i_def)
next
  case True
  with assms(2) obtain N where N: "nbrs_priv g i UNDIRECTED False [] = Some N"
    and g': "g' = g\<lparr>data := fold (clear_i_step i) N (m_erase i (data g))\<rparr>"
    by (auto simp: clear_i_def split: option.splits)
  have f: "find3 (data g') a b c =
      (if a = i \<or> (a \<in> set N \<and> b = i) then None else find3 (data g) a b c)" for a b c
    by (simp add: g' find3_fold_clear_i_step)
  show ?thesis
    unfolding mmag_def
  proof (intro allI impI)
    fix a b c x
    assume h: "find3 (data g') a b c = Some (True, x)"
    then have a: "a \<noteq> i" and ab: "\<not> (a \<in> set N \<and> b = i)"
      and old: "find3 (data g) a b c = Some (True, x)"
      by (auto simp: f split: if_splits)
    from assms(1) old obtain o1 y where R: "find3 (data g) b a c = Some (o1, y)" and oy: "o1 \<or> y = x"
      unfolding mmag_def by blast
    have "b \<noteq> i"
    proof
      assume "b = i"
      with R have "a \<in> set N" using nbrs_priv_all_mem [OF N] by simp
      with ab \<open>b = i\<close> show False by simp
    qed
    with a R oy show "\<exists>b' y. find3 (data g') b a c = Some (b', y) \<and> (b' \<or> y = x)"
      by (simp add: f)
  qed
qed

lemma mmag_clear_k:
  "wf_table (data g) \<Longrightarrow> mmag (data g) \<Longrightarrow> mmag (data (clear_k g key))"
  unfolding mmag_def by (simp add: clear_k_def find3_clear_k_verts)

lemma mmag_exec:
  assumes "wf_table (data g)" and "mmag (data g)" and "exec m g = Some g'"
  shows "mmag (data g')"
proof (cases m)
  case (Clear_dir_ik i key)
  with assms show ?thesis
    by (auto simp: clear_dir_ik_def clear_dir_ijk_def mmag_fold_clear_ijku split: option.splits)
next
  case (Clear_undir_ik i key)
  with assms show ?thesis
    by (auto simp: clear_undir_ik_def clear_undir_ijk_def mmag_fold_clear_ijku split: option.splits)
next
  case (Clear_ik i key)
  with assms show ?thesis
    by (auto simp: clear_ik_def clear_dir_ik_def clear_undir_ik_def clear_dir_ijk_def clear_undir_ijk_def
        mmag_fold_clear_ijku split: option.splits if_splits)
next
  case (Clear_i i)
  with assms show ?thesis
    by (auto intro: mmag_clear_i)
next
  case Clear_all
  with assms show ?thesis by (auto simp: clear_all_def mmag_def find3_def)
qed (use assms in \<open>auto simp: mmag_set_ijkux mmag_clear_ijku mmag_clear_dir_ij
      mmag_clear_undir_ij mmag_clear_k set_ijkx_def set_dir_ijkx_def set_undir_ijkx_def
      set_ijx_def set_dir_ijx_def set_undir_ijx_def clear_ij_def clear_dir_ijk_def clear_undir_ijk_def
      clear_ijk_def\<close>)

section \<open>The cleanup invariant is preserved\<close>

lemma ne_upto_mono: "ne_upto d A B \<Longrightarrow> A \<subseteq> A' \<Longrightarrow> B \<subseteq> B' \<Longrightarrow> ne_upto d A' B'"
  by (auto simp: ne_upto_def)

lemma find2_at3 [simp]: "find2 (at3 i j k f d) a =
  (if a = i then (find2 d i)(j \<mapsto> m_at rel0 k f (val2 d i j)) else find2 d a)"
  by (simp add: at3_def)

lemma ne_upto_at3: "ne_upto d A B \<Longrightarrow> ne_upto (at3 i j k f d) (A - {i}) (B - {(i, j)})"
  by (auto simp: ne_upto_def at3_def at2_def)

lemma ne_upto_at2: "ne_upto d A B \<Longrightarrow> ne_upto (at2 i j f d) (A - {i}) (insert (i, j) B)"
  by (auto simp: ne_upto_def at2_def)

lemma ne_upto_at1_erase: "ne_upto d A B \<Longrightarrow> ne_upto (at1 i (m_erase j) d) (insert i A) (B - {(i, j)})"
  by (auto simp: ne_upto_def)

lemma ne_upto_at1_id: "ne_upto d A B \<Longrightarrow> ne_upto (at1 i id d) (insert i A) B"
  by (auto simp: ne_upto_def)

lemma ne_upto_at1_put: "ne_upto d A B \<Longrightarrow> ne_upto (at1 i (m_put j []) d) (A - {i}) (insert (i, j) B)"
  by (auto simp: ne_upto_def)

lemma ne_upto_m_put_Nil: "ne_upto d A B \<Longrightarrow> ne_upto (m_put i [] d) (insert i A) B"
  by (auto simp: ne_upto_def)

lemma ne_upto_m_erase: "ne_upto d A B \<Longrightarrow> ne_upto (m_erase i d) (A - {i}) (B - {i} \<times> UNIV)"
  by (auto simp: ne_upto_def)

lemma ne_upto_prune_pair:
  "ne_upto d A B \<Longrightarrow> ne_upto (prune_pair i j d) (insert i A) (B - {(i, j)})"
  by (auto simp: ne_upto_def prune_pair_def Let_def val2_find2 at2_def split: option.splits)

lemma ne_upto_prune_vertex:
  "ne_upto d A B \<Longrightarrow> ne_upto (prune_vertex i d) (A - {i}) B"
  by (auto simp: ne_upto_def prune_vertex_def Let_def val1_map_of find2_def split: option.splits)

lemma ne_upto_prune:
  assumes "ne_upto d A B" and "A \<subseteq> {i, j}" and "B \<subseteq> {(i, j), (j, i)}"
  shows "ne_upto (prune i j d) {} {}"
proof -
  have "ne_upto (prune_pair j i (prune_pair i j d)) (insert j (insert i A)) (B - {(i, j)} - {(j, i)})"
    by (intro ne_upto_prune_pair assms)
  then have h: "ne_upto (prune_vertex j (prune_vertex i (prune_pair j i (prune_pair i j d))))
      (insert j (insert i A) - {i} - {j}) (B - {(i, j)} - {(j, i)})"
    by (intro ne_upto_prune_vertex)
  show ?thesis
    unfolding prune_def by (rule ne_upto_mono [OF h]) (use assms(2,3) in auto)
qed

lemma ne_pre_start: "ne_upto d {} {} \<Longrightarrow> ne_upto d {i, j} {(i, j), (j, i)}"
  by (rule ne_upto_mono) auto

lemma ne_pre_at3:
  assumes "ne_upto d {i, j} {(i, j), (j, i)}"
  shows "ne_upto (at3 i j k f d) {i, j} {(i, j), (j, i)}"
    and "ne_upto (at3 j i k f d) {i, j} {(i, j), (j, i)}"
  by (rule ne_upto_mono [OF ne_upto_at3 [OF assms]]; auto)+

lemma ne_pre_at2:
  assumes "ne_upto d {i, j} {(i, j), (j, i)}"
  shows "ne_upto (at2 i j f d) {i, j} {(i, j), (j, i)}"
    and "ne_upto (at2 j i f d) {i, j} {(i, j), (j, i)}"
  by (rule ne_upto_mono [OF ne_upto_at2 [OF assms]]; auto)+

lemma ne_pre_at1_erase:
  assumes "ne_upto d {i, j} {(i, j), (j, i)}"
  shows "ne_upto (at1 i (m_erase j) d) {i, j} {(i, j), (j, i)}"
    and "ne_upto (at1 j (m_erase i) d) {i, j} {(i, j), (j, i)}"
  by (rule ne_upto_mono [OF ne_upto_at1_erase [OF assms]]; auto)+

lemma ne_pre_demote:
  "ne_upto d {i, j} {(i, j), (j, i)} \<Longrightarrow> ne_upto (demote i j k d) {i, j} {(i, j), (j, i)}"
  by (simp add: demote_def Let_def ne_pre_at3)

lemma ne_pre_prune: "ne_upto d {i, j} {(i, j), (j, i)} \<Longrightarrow> ne_upto (prune i j d) {} {}"
  by (rule ne_upto_prune) auto

lemmas ne_pre = ne_pre_at3 ne_pre_at2 ne_pre_at1_erase ne_pre_demote

lemma ne_update: "ne_upto (data g) {} {} \<Longrightarrow> ne_upto (data (update g i j key outward x)) {} {}"
proof -
  assume ne: "ne_upto (data g) {} {}"
  define d1 where "d1 = (if map_of (data g) i = None then m_put i [] (data g) else data g)"
  define d2 where "d2 = (if map_of (val1 (at1 i id d1) i) j = None
                then at1 i (m_put j []) (at1 i id d1) else at1 i id d1)"
  have "ne_upto (m_put i [] (data g)) {i} {}"
    using ne_upto_m_put_Nil [OF ne, of i] by simp
  moreover have "ne_upto (data g) {i} {}"
    by (rule ne_upto_mono [OF ne]) auto
  ultimately have "ne_upto d1 {i} {}"
    by (simp add: d1_def)
  then have a: "ne_upto (at1 i id d1) {i} {}"
    by (rule ne_upto_mono [OF ne_upto_at1_id]) auto
  have "ne_upto (at1 i (m_put j []) (at1 i id d1)) {i} {(i, j)}"
    by (rule ne_upto_mono [OF ne_upto_at1_put [OF a]]) auto
  moreover have "ne_upto (at1 i id d1) {i} {(i, j)}"
    by (rule ne_upto_mono [OF a]) auto
  ultimately have "ne_upto d2 {i} {(i, j)}"
    by (simp add: d2_def)
  then have "ne_upto (at3 i j key (\<lambda>R. (outward, x)) d2) ({i} - {i}) ({(i, j)} - {(i, j)})"
    by (rule ne_upto_at3)
  then have b: "ne_upto (at3 i j key (\<lambda>R. (outward, x)) d2) {} {}"
    by simp
  have "data (update g i j key outward x) = at3 i j key (\<lambda>R. (outward, x)) d2"
    unfolding update_def Let_def d1_def d2_def by simp
  with b show ?thesis by simp
qed

lemma ne_clear_ijku:
  assumes "ne_upto (data g) {} {}"
  shows "ne_upto (data (clear_ijku g i j key undir)) {} {}"
  using assms ne_pre_start [OF assms, of i j]
  by (simp add: clear_ijku_def Let_def ne_pre ne_pre_prune)

lemma ne_at3: "ne_upto d {} {} \<Longrightarrow> ne_upto (at3 i j k f d) {} {}"
  using ne_upto_at3 [of d "{}" "{}" i j k f] by simp

lemma ne_at3_record:
  "ne_upto (data g) {} {} \<Longrightarrow> ne_upto (data (g\<lparr>data := at3 i j k f (data g)\<rparr>)) {} {}"
  by (simp add: ne_at3)

lemma ne_set_ijkux:
  assumes "ne_upto (data g) {} {}"
  shows "ne_upto (data (set_ijkux g i j key undir x)) {} {}"
proof (cases "\<bar>x - no_relationship g\<bar> < 1 / 10000000")
  case True
  with assms show ?thesis by (simp add: set_sentinel ne_clear_ijku)
next
  case False
  have g1: "ne_upto (data (update g i j key True x)) {} {}"
    by (intro ne_update assms)
  from False show ?thesis
    unfolding set_ijkux_def Let_def
    by (auto intro!: ne_update ne_at3_record g1 ne_at3 [OF g1])
qed


lemma ne_pre_clear_dir_body:
  "ne_upto d {i, j} {(i, j), (j, i)} \<Longrightarrow> ne_upto (clear_dir_body i j k R d) {i, j} {(i, j), (j, i)}"
  by (simp add: clear_dir_body_def Let_def ne_pre)

lemma ne_pre_clear_dir_loop:
  "ne_upto d {i, j} {(i, j), (j, i)} \<Longrightarrow> ne_upto (clear_dir_loop i j N d) {i, j} {(i, j), (j, i)}"
  by (induction N arbitrary: d) (auto simp: ne_pre_clear_dir_body)

lemma ne_clear_dir_ij:
  assumes "ne_upto (data g) {} {}"
  shows "ne_upto (data (clear_dir_ij g i j)) {} {}"
  using assms ne_pre_start [OF assms, of i j]
  by (simp add: clear_dir_ij_def Let_def ne_pre ne_pre_prune ne_pre_clear_dir_loop)

lemma ne_upto_val1: "ne_upto d A B \<Longrightarrow> val1 d i \<noteq> [] \<Longrightarrow> ne_upto d (A - {i}) B"
  by (auto simp: ne_upto_def val1_map_of)

lemma ne_clear_undir_ij:
  assumes "ne_upto (data g) {} {}"
  shows "ne_upto (data (clear_undir_ij g i j)) {} {}"
proof (cases "contains_undir_ij g i j")
  case False
  with assms show ?thesis by (simp add: clear_undir_ij_def)
next
  case True
  have "ne_upto (at1 j (m_erase i) (at1 i (m_erase j) (data g))) (insert j (insert i {})) ({} - {(i, j)} - {(j, i)})"
    by (intro ne_upto_at1_erase assms)
  then have "ne_upto (prune_vertex j (prune_vertex i (at1 j (m_erase i) (at1 i (m_erase j) (data g)))))
      (insert j (insert i {}) - {i} - {j}) ({} - {(i, j)} - {(j, i)})"
    by (intro ne_upto_prune_vertex)
  then have "ne_upto (prune_vertex j (prune_vertex i (at1 j (m_erase i) (at1 i (m_erase j) (data g))))) {} {}"
    by (rule ne_upto_mono) auto
  then show ?thesis
    using True by (simp add: clear_undir_ij_def Let_def)
qed

lemma ne_clear_i_step: "ne_upto d {} {} \<Longrightarrow> ne_upto (clear_i_step i n d) {} {}"
proof -
  assume ne: "ne_upto d {} {}"
  let ?d2 = "at1 n id (at1 n (m_erase i) d)"
  have h: "ne_upto ?d2 {n} {}"
    by (rule ne_upto_mono [OF ne_upto_at1_id [OF ne_upto_at1_erase [OF ne]]]) auto
  show ?thesis
  proof (cases "val1 ?d2 n = []")
    case True
    with ne ne_upto_m_erase [OF h, of n] show ?thesis
      by (auto simp: clear_i_step_def Let_def intro: ne_upto_mono)
  next
    case False
    with ne ne_upto_val1 [OF h False] show ?thesis
      by (auto simp: clear_i_step_def Let_def)
  qed
qed

lemma ne_fold_clear_i_step: "ne_upto d {} {} \<Longrightarrow> ne_upto (fold (clear_i_step i) N d) {} {}"
  by (induction N arbitrary: d) (simp_all add: ne_clear_i_step)

lemma ne_fold_clear_ijku:
  "ne_upto (data g) {} {} \<Longrightarrow>
   ne_upto (data (fold (\<lambda>n g'. clear_ijku g' i n key undir) N g)) {} {}"
  by (induction N arbitrary: g) (simp_all add: ne_clear_ijku)

lemma no_empty_clear_k: "no_empty (clear_k g key)"
  unfolding no_empty_def clear_k_def list_all_iff
  by (auto dest!: set_clear_k_verts set_clear_k_nbrs)

lemma ne_exec:
  assumes "ne_upto (data g) {} {}" and "exec m g = Some g'"
  shows "ne_upto (data g') {} {}"
proof (cases m)
  case (Clear_dir_ik i key)
  with assms show ?thesis
    by (auto simp: clear_dir_ik_def clear_dir_ijk_def ne_fold_clear_ijku split: option.splits)
next
  case (Clear_undir_ik i key)
  with assms show ?thesis
    by (auto simp: clear_undir_ik_def clear_undir_ijk_def ne_fold_clear_ijku split: option.splits)
next
  case (Clear_ik i key)
  with assms show ?thesis
    by (auto simp: clear_ik_def clear_dir_ik_def clear_undir_ik_def clear_dir_ijk_def clear_undir_ijk_def
        ne_fold_clear_ijku split: option.splits if_splits)
next
  case (Clear_i i)
  have "ne_upto (m_erase i (data g)) {} {}"
    by (rule ne_upto_mono [OF ne_upto_m_erase [OF assms(1)]]) auto
  with Clear_i assms show ?thesis
    by (auto simp: clear_i_def ne_fold_clear_i_step split: option.splits if_splits)
next
  case (Clear_k key)
  with assms show ?thesis
    using no_empty_ne [OF no_empty_clear_k [of g key]] by auto
next
  case Clear_all
  with assms show ?thesis by (auto simp: clear_all_def ne_upto_def find2_def)
qed (use assms in \<open>auto simp: ne_set_ijkux ne_clear_ijku ne_clear_dir_ij
      ne_clear_undir_ij set_ijkx_def set_dir_ijkx_def set_undir_ijkx_def
      set_ijx_def set_dir_ijx_def set_undir_ijx_def clear_ij_def clear_dir_ijk_def clear_undir_ijk_def
      clear_ijk_def\<close>)

section \<open>Rounding to single precision\<close>

text \<open>The binade search returns the quantum of the binade of its argument.\<close>

lemma f32_quantum_ge_start: "0 < q \<Longrightarrow> q \<le> f32_quantum n q a"
proof (induction n arbitrary: q)
  case 0
  then show ?case by simp
next
  case (Suc n)
  from Suc.IH [of "2 * q"] Suc.prems show ?case by auto
qed

lemma f32_quantum_pow: "\<exists>k \<le> n. f32_quantum n q a = q * 2 ^ k"
proof (induction n arbitrary: q)
  case 0
  then show ?case by simp
next
  case (Suc n)
  show ?case
  proof (cases "a < q * 2 ^ 24")
    case True
    then have "f32_quantum (Suc n) q a = q * 2 ^ 0" by simp
    then show ?thesis by blast
  next
    case False
    from Suc.IH [of "2 * q"] obtain k where "k \<le> n" and "f32_quantum n (2 * q) a = 2 * q * 2 ^ k"
      by blast
    with False have "Suc k \<le> Suc n" and "f32_quantum (Suc n) q a = q * 2 ^ Suc k"
      by simp_all
    then show ?thesis by blast
  qed
qed

lemma f32_quantum_low:
  "0 < q \<Longrightarrow> f32_quantum n q a = q \<or> f32_quantum n q a * 2 ^ 23 \<le> a"
proof (induction n arbitrary: q)
  case 0
  then show ?case by simp
next
  case (Suc n)
  show ?case
  proof (cases "a < q * 2 ^ 24")
    case True
    then show ?thesis by simp
  next
    case False
    from Suc.IH [of "2 * q"] Suc.prems
    have "f32_quantum n (2 * q) a = 2 * q \<or> f32_quantum n (2 * q) a * 2 ^ 23 \<le> a"
      by simp
    with False show ?thesis by auto
  qed
qed

lemma f32_quantum_eq:
  assumes "0 < q" and "k \<le> n" and "k = 0 \<or> q * 2 ^ k * 2 ^ 23 \<le> a" and "a < q * 2 ^ k * 2 ^ 24"
  shows "f32_quantum n q a = q * 2 ^ k"
  using assms
proof (induction n arbitrary: q k)
  case 0
  then show ?case by simp
next
  case (Suc n)
  show ?case
  proof (cases k)
    case 0
    with Suc.prems show ?thesis by simp
  next
    case (Suc k')
    with Suc.prems have lo: "q * 2 ^ 24 \<le> a" and "k' \<le> n"
      and hi: "a < 2 * q * 2 ^ k' * 2 ^ 24"
      and "k' = 0 \<or> 2 * q * 2 ^ k' * 2 ^ 23 \<le> a"
    proof -
      from Suc.prems Suc have a: "q * 2 ^ Suc k' * 2 ^ 23 \<le> a" by simp
      have "q * 2 ^ 24 \<le> q * 2 ^ Suc k' * 2 ^ 23"
        using Suc.prems(1) by simp
      with a show "q * 2 ^ 24 \<le> a" by linarith
      from Suc.prems Suc show "k' \<le> n" by simp
      from Suc.prems Suc show "a < 2 * q * 2 ^ k' * 2 ^ 24" by (simp add: mult.assoc)
      from a show "k' = 0 \<or> 2 * q * 2 ^ k' * 2 ^ 23 \<le> a" by (simp add: mult.assoc)
    qed
    with Suc.IH [of "2 * q" k'] Suc.prems(1) have "f32_quantum n (2 * q) a = 2 * q * 2 ^ k'"
      by simp
    with lo Suc show ?thesis by simp
  qed
qed

lemma f32_quantum_ge:
  assumes "0 < q" and "m \<le> n" and "q * 2 ^ m * 2 ^ 23 \<le> a"
  shows "q * 2 ^ m \<le> f32_quantum n q a"
proof -
  obtain k where k: "k \<le> n" and e: "f32_quantum n q a = q * 2 ^ k"
    using f32_quantum_pow by blast
  show ?thesis
  proof (cases "m \<le> k")
    case True
    then have "(2::real) ^ m \<le> 2 ^ k" by (simp add: power_increasing)
    with assms(1) e show ?thesis by simp
  next
    case False
    then have km: "Suc k \<le> m" by simp
    then have p: "(2::real) ^ Suc k \<le> 2 ^ m" by (rule power_increasing) simp
    have "k < n" using km assms(2) by simp
    have "a < q * 2 ^ k * 2 ^ 24"
      using e \<open>k < n\<close> assms(1)
    proof (induction n arbitrary: q k)
      case 0
      then show ?case by simp
    next
      case (Suc n)
      show ?case
      proof (cases "a < q * 2 ^ 24")
        case True
        with Suc.prems have "q * 2 ^ k = q" by simp
        with Suc.prems(3) have "(2::real) ^ k = 1" by simp
        have "k = 0"
        proof (cases k)
          case 0
          then show ?thesis .
        next
          case (Suc k')
          have "(1::real) \<le> 2 ^ k'" by simp
          with \<open>(2::real) ^ k = 1\<close> Suc show ?thesis by simp
        qed
        with True show ?thesis by simp
      next
        case False
        with Suc.prems have r: "f32_quantum n (2 * q) a = q * 2 ^ k" by simp
        from f32_quantum_ge_start [of "2 * q" n a] Suc.prems(3) r have "2 * q \<le> q * 2 ^ k" by simp
        with Suc.prems(3) have "k \<noteq> 0" by (cases k) auto
        then obtain k' where k': "k = Suc k'" by (cases k) auto
        with r have "f32_quantum n (2 * q) a = 2 * q * 2 ^ k'" by simp
        moreover from k' Suc.prems(2) have "k' < n" by simp
        ultimately have "a < 2 * q * 2 ^ k' * 2 ^ 24"
          using Suc.IH [of "2 * q" k'] Suc.prems(3) by simp
        with k' show ?thesis by (simp add: mult.assoc)
      qed
    qed
    moreover have "q * 2 ^ k * 2 ^ 24 \<le> q * 2 ^ m * 2 ^ 23"
      using p assms(1) by simp
    ultimately show ?thesis using assms(3) by linarith
  qed
qed

text \<open>
  Rounding to nearest moves a real by at most half a quantum; a difference of magnitude
  \<open>1/10^7\<close> or more therefore rounds to a binary32 value of magnitude at least
  \<open>14073749 / 2^47\<close>, the binary32 value next above the tolerance of the test.
\<close>

lemma round_even_bounds:
  "r - 1 / 2 \<le> real_of_int (round_even r)" "real_of_int (round_even r) \<le> r + 1 / 2"
proof -
  have a: "real_of_int \<lfloor>r\<rfloor> \<le> r" and b: "r < real_of_int \<lfloor>r\<rfloor> + 1"
    by linarith+
  consider "r - real_of_int \<lfloor>r\<rfloor> < 1 / 2" | "1 / 2 < r - real_of_int \<lfloor>r\<rfloor>"
    | "r - real_of_int \<lfloor>r\<rfloor> = 1 / 2"
    by linarith
  then have "r - 1 / 2 \<le> real_of_int (round_even r) \<and> real_of_int (round_even r) \<le> r + 1 / 2"
  proof cases
    case 1
    with a b show ?thesis by (auto simp: round_even_def Let_def; linarith)
  next
    case 2
    with a b show ?thesis by (auto simp: round_even_def Let_def; linarith)
  next
    case 3
    then have "r = real_of_int \<lfloor>r\<rfloor> + 1 / 2" by simp
    then show ?thesis
      by (cases "even \<lfloor>r\<rfloor>") (simp_all add: round_even_def Let_def)
  qed
  then show "r - 1 / 2 \<le> real_of_int (round_even r)" "real_of_int (round_even r) \<le> r + 1 / 2"
    by simp_all
qed

lemma round_even_abs_ge:
  assumes "real_of_int n - 1 < \<bar>r\<bar> - 1 / 2"
  shows "n \<le> \<bar>round_even r\<bar>"
proof -
  have "\<bar>r\<bar> - 1 / 2 \<le> \<bar>real_of_int (round_even r)\<bar>"
    using round_even_bounds [of r] by linarith
  with assms have "real_of_int n - 1 < real_of_int \<bar>round_even r\<bar>"
    by simp
  then show ?thesis by linarith
qed

lemma round_even_0 [simp]: "round_even 0 = 0"
  by (simp add: round_even_def)

lemma f32_round_0 [simp]: "f32_round 0 = 0"
  by (simp add: f32_round_def Let_def)

lemma f32_tiny_pos: "0 < f32_tiny"
  by (simp add: f32_tiny_def)

lemma f32_round_far:
  assumes "1 / 10000000 \<le> \<bar>d\<bar>"
  shows "14073749 / 2 ^ 47 \<le> \<bar>f32_round d\<bar>"
proof -
  define q where "q = f32_quantum 253 f32_tiny \<bar>d\<bar>"
  have q0: "0 < q"
    using f32_quantum_ge_start [OF f32_tiny_pos, of 253 "\<bar>d\<bar>"] f32_tiny_pos by (simp add: q_def)
  have "f32_tiny * 2 ^ 102 * 2 ^ 23 \<le> \<bar>d\<bar>"
    using assms by (simp add: f32_tiny_def)
  then have "f32_tiny * 2 ^ 102 \<le> q"
    unfolding q_def by (intro f32_quantum_ge f32_tiny_pos) simp_all
  then have lo: "1 / 2 ^ 47 \<le> q" by (simp add: f32_tiny_def)
  have r: "\<bar>f32_round d\<bar> = real_of_int \<bar>round_even (d / q)\<bar> * q"
    using q0 unfolding f32_round_def Let_def q_def [symmetric] by (simp add: abs_mult)
  show ?thesis
  proof (cases "q = 1 / 2 ^ 47")
    case True
    have "\<bar>d / q\<bar> = \<bar>d\<bar> * 2 ^ 47" by (simp add: True)
    with assms have "14073748 + 4 / 5 \<le> \<bar>d / q\<bar>" by simp
    then have "14073749 \<le> \<bar>round_even (d / q)\<bar>"
      by (intro round_even_abs_ge) simp
    then have "real_of_int 14073749 \<le> real_of_int \<bar>round_even (d / q)\<bar>"
      by (simp only: of_int_le_iff)
    then have "14073749 * q \<le> real_of_int \<bar>round_even (d / q)\<bar> * q"
      using q0 by simp
    moreover have "14073749 / 2 ^ 47 = 14073749 * q"
      by (simp add: True)
    ultimately show ?thesis unfolding r by linarith
  next
    case False
    obtain k where k: "k \<le> 253" and e: "q = f32_tiny * 2 ^ k"
      using f32_quantum_pow [of 253 f32_tiny "\<bar>d\<bar>"] by (auto simp: q_def)
    have "102 < k"
    proof (rule ccontr)
      assume "\<not> 102 < k"
      then have "k \<le> 102" by simp
      then have "(2::real) ^ k \<le> 2 ^ 102" by (intro power_increasing) simp_all
      with e have "q \<le> 1 / 2 ^ 47" by (simp add: f32_tiny_def)
      with lo False show False by simp
    qed
    then have "103 \<le> k" by simp
    then have "(2::real) ^ 103 \<le> 2 ^ k" by (intro power_increasing) simp_all
    with e have lo2: "1 / 2 ^ 46 \<le> q" by (simp add: f32_tiny_def)
    from lo have "q \<noteq> f32_tiny" by (auto simp: f32_tiny_def)
    with f32_quantum_low [OF f32_tiny_pos, of 253 "\<bar>d\<bar>"] have "q * 2 ^ 23 \<le> \<bar>d\<bar>"
      by (simp add: q_def)
    with q0 have "2 ^ 23 \<le> \<bar>d / q\<bar>"
      by (simp add: field_simps)
    then have "8388608 \<le> \<bar>round_even (d / q)\<bar>"
      by (intro round_even_abs_ge) simp
    then have "real_of_int 8388608 \<le> real_of_int \<bar>round_even (d / q)\<bar>"
      by (simp only: of_int_le_iff)
    then have "8388608 * q \<le> real_of_int \<bar>round_even (d / q)\<bar> * q"
      using q0 by simp
    moreover have "14073749 / 2 ^ 47 \<le> 8388608 * q"
      using lo2 by simp
    ultimately show ?thesis unfolding r by linarith
  qed
qed

lemma near_sentinel_eq: "near_sentinel x s = (\<bar>f32_round (x - s)\<bar> < tol64)"
  by (auto simp add: near_sentinel_def sentinel_test_def f32_of_real_def Let_def tol64_def)

text \<open>
  With an infinite or NaN operand the test is false, also when both operands are the same
  infinity: their difference is a NaN.
\<close>

lemma sentinel_test_special:
  "\<not> sentinel_test PInf s" "\<not> sentinel_test NInf s" "\<not> sentinel_test NaN s"
  "\<not> sentinel_test (F32 a) PInf" "\<not> sentinel_test (F32 a) NInf" "\<not> sentinel_test (F32 a) NaN"
  by (cases s; simp add: sentinel_test_def)+

lemma far_not_near:
  "1 / 10000000 \<le> \<bar>x - s\<bar> \<Longrightarrow> \<not> near_sentinel x s"
  using f32_round_far [of "x - s"] by (simp add: near_sentinel_eq tol64_def)

lemma near_sentinel_self [simp]: "near_sentinel s s"
  by (simp add: near_sentinel_eq tol64_def)

lemma f32_round_eval:
  assumes "k \<le> 253" and "k = 0 \<or> f32_tiny * 2 ^ k * 2 ^ 23 \<le> \<bar>r\<bar>"
    and "\<bar>r\<bar> < f32_tiny * 2 ^ k * 2 ^ 24"
  shows "f32_round r = real_of_int (round_even (r / (f32_tiny * 2 ^ k))) * (f32_tiny * 2 ^ k)"
  unfolding f32_round_def Let_def
  by (simp only: f32_quantum_eq [OF f32_tiny_pos assms])

subsection \<open>The two forms of \<open>set\<close>\<close>

text \<open>
  When the test in single precision succeeds the exact difference is below \<open>1/10^7\<close>;
  the converse fails in a narrow band below \<open>1/10^7\<close>. Outside that band the two forms
  of \<open>set\<close> are the same function.
\<close>

lemma near_sentinel_close: "near_sentinel x s \<Longrightarrow> \<bar>x - s\<bar> < 1 / 10000000"
  using far_not_near [of x s] by (cases "\<bar>x - s\<bar> < 1 / 10000000") auto

lemma set_f32_fields [simp]:
  "directed (set_ijkux_f32 g i j key undir x) = directed g"
  "no_relationship (set_ijkux_f32 g i j key undir x) = no_relationship g"
  by (simp_all add: set_ijkux_f32_def Let_def clear_undir_ijk_def clear_dir_ijk_def)

lemma set_f32_near:
  "near_sentinel x (no_relationship g) \<Longrightarrow>
   set_ijkux_f32 g i j key undir x = clear_ijku g i j key undir"
  by (simp add: set_ijkux_f32_def clear_undir_ijk_def clear_dir_ijk_def)

lemma set_f32_agrees:
  assumes "near_sentinel x (no_relationship g) \<or> 1 / 10000000 \<le> \<bar>x - no_relationship g\<bar>"
  shows "set_ijkux_f32 g i j key undir x = set_ijkux g i j key undir x"
proof (cases "near_sentinel x (no_relationship g)")
  case True
  then show ?thesis
    using near_sentinel_close [OF True] by (simp add: set_f32_near set_sentinel)
next
  case False
  with assms have "\<not> \<bar>x - no_relationship g\<bar> < 1 / 10000000" by auto
  with False show ?thesis
    by (simp add: set_ijkux_f32_def set_ijkux_def)
qed

lemma find3_set_f32_undir:
  assumes "\<not> near_sentinel x (no_relationship g)"
  shows "find3 (data (set_ijkux_f32 g i j key True x)) a b c =
    (if c = key \<and> (a = i \<and> b = j \<or> a = j \<and> b = i) then Some (True, x) else find3 (data g) a b c)"
  using assms by (auto simp add: set_ijkux_f32_def Let_def)

lemma clear_ijku_frame:
  assumes "\<not> (c = key \<and> (a = i \<and> b = j \<or> a = j \<and> b = i))"
  shows "find3 (data (clear_ijku g i j key undir)) a b c = find3 (data g) a b c"
proof (cases "find3 (data g) i j key")
  case None
  then show ?thesis by (simp add: clear_ijku_absent)
next
  case (Some R)
  obtain o1 x where R: "R = (o1, x)" by (cases R)
  show ?thesis
  proof (cases undir)
    case True
    then have u: "undir = True" by simp
    from assms show ?thesis
      unfolding u by (auto simp: find3_clear_undir [OF Some])
  next
    case False
    then have dir: "undir = False" by simp
    show ?thesis
    proof (cases o1)
      case False
      with dir Some R show ?thesis
        by (simp add: find3_clear_dir_mirror)
    next
      case True
      with Some R have ij: "find3 (data g) i j key = Some (True, x)" by simp
      show ?thesis
      proof (cases "\<exists>y. find3 (data g) j i key = Some (True, y)")
        case True
        then obtain y where ji: "find3 (data g) j i key = Some (True, y)" by blast
        from assms show ?thesis
          unfolding dir by (auto simp: find3_clear_dir_twoway [OF ij ji])
      next
        case False
        then have nji: "\<forall>y. find3 (data g) j i key \<noteq> Some (True, y)" by blast
        from assms show ?thesis
          unfolding dir by (auto simp: find3_clear_dir_oneway [OF ij nji])
      qed
    qed
  qed
qed

lemma clear_ijku_not_outward:
  "\<not> contains_dir_ijk (clear_ijku g i j key undir) i j key"
proof (cases "find3 (data g) i j key")
  case None
  then show ?thesis
    by (simp add: clear_ijku_absent contains_dir_ijk_def contains_ijku_find3)
next
  case (Some R)
  obtain o1 x where R: "R = (o1, x)" by (cases R)
  show ?thesis
  proof (cases undir)
    case True
    then have u: "undir = True" by simp
    show ?thesis
      unfolding u by (simp add: contains_dir_ijk_def contains_ijku_find3 find3_clear_undir [OF Some])
  next
    case False
    then have dir: "undir = False" by simp
    show ?thesis
    proof (cases o1)
      case False
      with dir Some R show ?thesis
        by (simp add: contains_dir_ijk_def contains_ijku_find3 find3_clear_dir_mirror)
    next
      case True
      with Some R have ij: "find3 (data g) i j key = Some (True, x)" by simp
      show ?thesis
      proof (cases "\<exists>y. find3 (data g) j i key = Some (True, y)")
        case True
        then obtain y where ji: "find3 (data g) j i key = Some (True, y)" by blast
        show ?thesis
          unfolding dir
          by (simp add: contains_dir_ijk_def contains_ijku_find3 find3_clear_dir_twoway [OF ij ji])
      next
        case False
        then have nji: "\<forall>y. find3 (data g) j i key \<noteq> Some (True, y)" by blast
        show ?thesis
          unfolding dir
          by (simp add: contains_dir_ijk_def contains_ijku_find3 find3_clear_dir_oneway [OF ij nji])
      qed
    qed
  qed
qed

lemma clear_undir_absent_both:
  "find3 (data (clear_ijku g i j key True)) i j key = None"
  "find3 (data (clear_ijku g i j key True)) j i key = None \<or> find3 (data g) i j key = None"
  by (cases "find3 (data g) i j key"; simp add: clear_ijku_absent find3_clear_undir)+

subsection \<open>Some binary32 values\<close>

lemma round_even_of_int [simp]: "round_even (real_of_int n) = n"
  by (simp add: round_even_def)

lemma f32_example_values:
  "f32_round (3518437 / 2 ^ 45) = 3518437 / 2 ^ 45"
  "f32_round (- 2951479 / 2 ^ 69) = - 2951479 / 2 ^ 69"
  "f32_round (3518437 / 2 ^ 45 - (- 2951479 / 2 ^ 69)) = 14073749 / 2 ^ 47"
  "f32_round (1 / 2 ^ 24) = 1 / 2 ^ 24"
proof -
  have "round_even (14073748::real) = 14073748"
    using round_even_of_int [of 14073748] by simp
  then show "f32_round (3518437 / 2 ^ 45) = 3518437 / 2 ^ 45"
    using f32_round_eval [of 102 "3518437 / 2 ^ 45"] by (simp add: f32_tiny_def)
  have "round_even (- 11805916::real) = - 11805916"
    using round_even_of_int [of "- 11805916"] by simp
  then show "f32_round (- 2951479 / 2 ^ 69) = - 2951479 / 2 ^ 69"
    using f32_round_eval [of 78 "- 2951479 / 2 ^ 69"] by (simp add: f32_tiny_def)
  have "round_even (59029580482871 / 4194304) = 14073749"
    by code_simp
  then show "f32_round (3518437 / 2 ^ 45 - (- 2951479 / 2 ^ 69)) = 14073749 / 2 ^ 47"
    using f32_round_eval [of 102 "3518437 / 2 ^ 45 - (- 2951479 / 2 ^ 69)"] by (simp add: f32_tiny_def)
  have "round_even (8388608::real) = 8388608"
    using round_even_of_int [of 8388608] by simp
  then show "f32_round (1 / 2 ^ 24) = 1 / 2 ^ 24"
    using f32_round_eval [of 102 "1 / 2 ^ 24"] by (simp add: f32_tiny_def)
qed

section \<open>The claims\<close>

text \<open>
  Claim C1: a graph copied from \<open>g\<close>, by the copy constructor or by assignment, has the
  table, the directed flag and the \<open>no_relationship\<close> sentinel of \<open>g\<close>. Neither
  \<open>Graph(const Graph&)\<close> nor \<open>operator=\<close> copies \<open>no_relationship\<close>: after assigning a
  graph with sentinel 5 and one relationship to a graph with sentinel 0, the table and
  the flag are those of the source and \<open>get\<close> on the stored pair agrees, but the
  sentinel is still 0 and \<open>get\<close> on a missing pair returns 0 where the source returns
  5; a copy-constructed graph has whatever value the uninitialised member holds.
\<close>

theorem copy_loses_sentinel:
  "data (assign (Graph_new True 0) (set_undir_ijkx (Graph_new True 5) 1 2 ''w'' 7))
     = data (set_undir_ijkx (Graph_new True 5) 1 2 ''w'' 7)
   \<and> directed (assign (Graph_new True 0) (set_undir_ijkx (Graph_new True 5) 1 2 ''w'' 7))
     = directed (set_undir_ijkx (Graph_new True 5) 1 2 ''w'' 7)
   \<and> no_relationship (set_undir_ijkx (Graph_new True 5) 1 2 ''w'' 7) = 5
   \<and> no_relationship (assign (Graph_new True 0) (set_undir_ijkx (Graph_new True 5) 1 2 ''w'' 7)) = 0
   \<and> get_ijk (set_undir_ijkx (Graph_new True 5) 1 2 ''w'' 7) 1 2 ''w'' = 7
   \<and> get_ijk (assign (Graph_new True 0) (set_undir_ijkx (Graph_new True 5) 1 2 ''w'' 7)) 1 2 ''w'' = 7
   \<and> get_ijk (set_undir_ijkx (Graph_new True 5) 1 2 ''w'' 7) 2 3 [] = 5
   \<and> get_ijk (assign (Graph_new True 0) (set_undir_ijkx (Graph_new True 5) 1 2 ''w'' 7)) 2 3 [] = 0
   \<and> no_relationship (Graph_copy 0 (set_undir_ijkx (Graph_new True 5) 1 2 ''w'' 7)) = 0
   \<and> get_ijk (Graph_copy 0 (set_undir_ijkx (Graph_new True 5) 1 2 ''w'' 7)) 2 3 [] = 0"
  by (simp add: assign_def Graph_copy_def get_ijk_find3 set_undir_ijkx_def find3_set_undir)

text \<open>
  Claim C2: every query on an absent vertex, pair or key returns its benign result; in
  particular \<open>keys(i)\<close> returns the empty set for a vertex \<open>i\<close> that is not a source in
  the table. On the empty graph \<open>keys(1)\<close> dereferences \<open>data.end()\<close> and has no defined
  result, while \<open>keys(1, 2)\<close>, \<open>nbrs(1)\<close>, \<open>get(1, 2)\<close> and \<open>contains(1)\<close>, which compare
  the iterator with \<open>end()\<close> first, return the empty set, the sentinel and false.
\<close>

theorem keys_of_absent_vertex_undefined:
  "map_of (data (Graph_new True 0)) 1 = None
   \<and> keys_i (Graph_new True 0) 1 = None
   \<and> keys_ij (Graph_new True 0) 1 2 = []
   \<and> nbrs_i (Graph_new True 0) 1 = Some []
   \<and> get_ijk (Graph_new True 0) 1 2 [] = 0
   \<and> \<not> contains_i (Graph_new True 0) 1"
  by (simp add: keys_i_def keys_ij_def nbrs_i_def nbrs_priv_def get_ijk_def contains_i_def
      contains_dir_i_def Graph_new_def)

text \<open>
  Claim C4: after \<open>set_dir(1, 2, "w", 5)\<close> and \<open>set_dir(2, 1, "w", 7)\<close> both entries are
  outward, and \<open>clear_dir(1, 2, "w")\<close> turns the entry at \<open>(1, 2, "w")\<close> into a mirror-only
  entry that carries the magnitude 7 of the opposite entry, so that \<open>get(2, 1, "w")\<close>
  is 7 and \<open>get(1, 2, "w")\<close> is -7. This holds from every state of a graph whose
  sentinel is not within the tolerance of 5 or of 7.
\<close>

theorem clear_dir_demotes_two_way:
  fixes g :: Graph
  defines "g2 \<equiv> set_dir_ijkx (set_dir_ijkx g 1 2 ''w'' 5) 2 1 ''w'' 7"
  defines "g3 \<equiv> clear_dir_ijk g2 1 2 ''w''"
  assumes "\<bar>5 - no_relationship g\<bar> \<ge> 1 / 10000000"
    and "\<bar>7 - no_relationship g\<bar> \<ge> 1 / 10000000"
  shows "find3 (data g2) 1 2 ''w'' = Some (True, 5) \<and> find3 (data g2) 2 1 ''w'' = Some (True, 7)
       \<and> find3 (data g3) 1 2 ''w'' = Some (False, 7) \<and> find3 (data g3) 2 1 ''w'' = Some (True, 7)
       \<and> get_ijk g3 2 1 ''w'' = 7 \<and> get_ijk g3 1 2 ''w'' = - 7"
proof -
  have a: "find3 (data g2) 1 2 ''w'' = Some (True, 5)"
    and b: "find3 (data g2) 2 1 ''w'' = Some (True, 7)"
    using assms(3,4) by (simp_all add: g2_def set_dir_ijkx_def find3_set_dir)
  have c: "find3 (data g3) x y z =
      (if x = 1 \<and> y = 2 \<and> z = ''w'' then Some (False, 7) else find3 (data g2) x y z)" for x y z
    unfolding g3_def clear_dir_ijk_def by (rule find3_clear_dir_twoway [OF a b])
  show ?thesis using a b by (simp add: c get_ijk_find3)
qed

theorem clear_dir_demotes_two_way_witness:
  "\<bar>5 - no_relationship (Graph_new True 0)\<bar> \<ge> 1 / 10000000
   \<and> \<bar>7 - no_relationship (Graph_new True 0)\<bar> \<ge> 1 / 10000000
   \<and> get_ijk (clear_dir_ijk (set_dir_ijkx (set_dir_ijkx (Graph_new True 0) 1 2 ''w'' 5) 2 1 ''w'' 7)
        1 2 ''w'') 2 1 ''w'' = 7
   \<and> get_ijk (clear_dir_ijk (set_dir_ijkx (set_dir_ijkx (Graph_new True 0) 1 2 ''w'' 5) 2 1 ''w'' 7)
        1 2 ''w'') 1 2 ''w'' = - 7"
  using clear_dir_demotes_two_way [of "Graph_new True 0"] by simp

text \<open>
  Claim C5: for all vertices \<open>i\<close> and \<open>j\<close>, every key and every value \<open>v\<close> with
  \<open>|v - no_relationship| \<ge> 1e-7\<close>, after \<open>set_undir(i, j, key, v)\<close> on any state both
  \<open>get(i, j, key)\<close> and \<open>get(j, i, key)\<close> return \<open>v\<close>.
\<close>

theorem set_undir_round_trip:
  assumes "\<bar>v - no_relationship g\<bar> \<ge> 1 / 10000000"
  shows "get_ijk (set_undir_ijkx g i j key v) i j key = v
       \<and> get_ijk (set_undir_ijkx g i j key v) j i key = v"
  using assms by (simp add: set_undir_ijkx_def get_ijk_find3 find3_set_undir)

theorem set_undir_round_trip_witness:
  "\<bar>5 - no_relationship (Graph_new True 0)\<bar> \<ge> 1 / 10000000
   \<and> get_ijk (set_undir_ijkx (Graph_new True 0) 1 2 ''w'' 5) 1 2 ''w'' = 5
   \<and> get_ijk (set_undir_ijkx (Graph_new True 0) 1 2 ''w'' 5) 2 1 ''w'' = 5"
  using set_undir_round_trip [of 5 "Graph_new True 0" 1 2 "''w''"] by simp

text \<open>
  Claim C6, amended: for all vertices \<open>i \<noteq> j\<close>, every key and every value \<open>v\<close> outside
  the tolerance of the sentinel, if there is no entry at \<open>(j, i, key)\<close> before the call
  then after \<open>set_dir(i, j, key, v)\<close> the query \<open>get(i, j, key)\<close> returns \<open>v\<close> and
  \<open>get(j, i, key)\<close> returns \<open>-v\<close>. For \<open>i = j\<close> the entry is its own mirror and stays
  outward, so both queries return \<open>v\<close>.
\<close>

theorem set_dir_asymmetry:
  assumes "i \<noteq> j"
    and "\<bar>v - no_relationship g\<bar> \<ge> 1 / 10000000"
    and "\<not> contains_undir_ijk g j i key"
  shows "get_ijk (set_dir_ijkx g i j key v) i j key = v
       \<and> get_ijk (set_dir_ijkx g i j key v) j i key = - v"
  using assms
  by (auto simp add: set_dir_ijkx_def get_ijk_find3 find3_set_dir contains_undir_ijk_def
      contains_ijku_find3 split: option.splits)

theorem set_dir_asymmetry_witness:
  "(1::int) \<noteq> 2
   \<and> \<bar>10 - no_relationship (Graph_new True 0)\<bar> \<ge> 1 / 10000000
   \<and> \<not> contains_undir_ijk (Graph_new True 0) 2 1 ''road''
   \<and> get_ijk (set_dir_ijkx (Graph_new True 0) 1 2 ''road'' 10) 1 2 ''road'' = 10
   \<and> get_ijk (set_dir_ijkx (Graph_new True 0) 1 2 ''road'' 10) 2 1 ''road'' = - 10"
  using set_dir_asymmetry [of 1 2 10 "Graph_new True 0" "''road''"]
  by (simp add: contains_undir_ijk_def contains_ijku_find3)

theorem set_dir_asymmetry_counterexample:
  "\<bar>5 - no_relationship (Graph_new True 0)\<bar> \<ge> 1 / 10000000
   \<and> \<not> contains_undir_ijk (Graph_new True 0) 1 1 ''w''
   \<and> get_ijk (set_dir_ijkx (Graph_new True 0) 1 1 ''w'' 5) 1 1 ''w'' = 5
   \<and> get_ijk (set_dir_ijkx (Graph_new True 0) 1 1 ''w'' 5) 1 1 ''w'' \<noteq> - 5"
  by (simp add: set_dir_ijkx_def get_ijk_find3 find3_set_dir contains_undir_ijk_def contains_ijku_find3)

text \<open>
  Claim C7, amended: for every finite value \<open>x\<close> and every graph (with its finite sentinel),
  when the difference \<open>x - no_relationship\<close> as the code computes it, rounded to single
  precision, has magnitude below the double \<open>0.0000001\<close>, the call
  \<open>set(i, j, key, undir, x)\<close> is the call \<open>clear(i, j, key, undir)\<close>: afterwards
  \<open>(i, j, key)\<close> is not an outward relationship, for \<open>undir = true\<close> there is no entry at
  \<open>(i, j, key)\<close> and, if there was one, none at \<open>(j, i, key)\<close>, no entry exists that did not
  exist before, and every entry other than \<open>(i, j, key)\<close> and \<open>(j, i, key)\<close> is unchanged.
  In particular after
  \<open>set_undir(i, j, key, no_relationship)\<close> the query \<open>contains(i, j, key)\<close> is false, also
  in its undirected form, and \<open>get(i, j, key)\<close> returns the sentinel.

  The condition \<open>|x - no_relationship| < 1/10^7\<close> on the exact difference is necessary for
  the test to succeed but not sufficient: for the binary32 values \<open>x = 3518437 / 2^45\<close> and
  sentinel \<open>- 2951479 / 2^69\<close> the exact difference is below \<open>1/10^7\<close>, its rounding to
  single precision is \<open>14073749 / 2^47\<close>, above the tolerance, and \<open>set_undir\<close> writes the
  entry.
\<close>

theorem set_f32_sentinel_clears:
  "(near_sentinel x (no_relationship g) \<longrightarrow>
      set_ijkux_f32 g i j key undir x = clear_ijku g i j key undir
      \<and> \<not> contains_dir_ijk (set_ijkux_f32 g i j key undir x) i j key
      \<and> (undir \<longrightarrow>
            \<not> contains_undir_ijk (set_ijkux_f32 g i j key undir x) i j key
            \<and> (contains_undir_ijk g i j key \<longrightarrow>
                 \<not> contains_undir_ijk (set_ijkux_f32 g i j key undir x) j i key))
      \<and> (\<forall>a b c. find3 (data (set_ijkux_f32 g i j key undir x)) a b c \<noteq> None \<longrightarrow>
             find3 (data g) a b c \<noteq> None)
      \<and> (\<forall>a b c. \<not> (c = key \<and> (a = i \<and> b = j \<or> a = j \<and> b = i)) \<longrightarrow>
             find3 (data (set_ijkux_f32 g i j key undir x)) a b c = find3 (data g) a b c))
   \<and> \<not> contains_ijk (set_ijkux_f32 g i j key True (no_relationship g)) i j key
   \<and> \<not> contains_undir_ijk (set_ijkux_f32 g i j key True (no_relationship g)) i j key
   \<and> get_ijk (set_ijkux_f32 g i j key True (no_relationship g)) i j key = no_relationship g"
proof -
  have a: "\<not> contains_undir_ijk (clear_ijku g i j key True) i j key"
    by (simp add: contains_undir_ijk_def contains_ijku_find3 clear_undir_absent_both)
  have "contains_undir_ijk g i j key \<longrightarrow> \<not> contains_undir_ijk (clear_ijku g i j key True) j i key"
    using clear_undir_absent_both(2) [of g i j key]
    by (auto simp add: contains_undir_ijk_def contains_ijku_find3 split: option.splits)
  with a have b: "undir \<longrightarrow>
      \<not> contains_undir_ijk (clear_ijku g i j key undir) i j key
      \<and> (contains_undir_ijk g i j key \<longrightarrow> \<not> contains_undir_ijk (clear_ijku g i j key undir) j i key)"
    by (cases undir) simp_all
  show ?thesis
    using clear_ijku_no_new_entry [of g i j key undir] clear_ijku_frame [of _ key _ i _ j g undir]
      clear_ijku_not_outward [of g i j key undir] a b
    by (simp add: set_f32_near contains_ijk_def contains_undir_ijk_def
        contains_ijku_find3 get_ijk_find3 clear_undir_absent_both)
qed

theorem set_f32_sentinel_clears_witness:
  "near_sentinel (1 / 2 ^ 24) (no_relationship (set_ijkux_f32 (Graph_new True 0) 1 2 ''w'' False 5))
   \<and> f32_round (1 / 2 ^ 24) = 1 / 2 ^ 24
   \<and> contains_dir_ijk (set_ijkux_f32 (Graph_new True 0) 1 2 ''w'' False 5) 1 2 ''w''
   \<and> data (set_ijkux_f32 (set_ijkux_f32 (Graph_new True 0) 1 2 ''w'' False 5) 1 2 ''w'' False (1 / 2 ^ 24))
       = []
   \<and> \<not> contains_dir_ijk
         (set_ijkux_f32 (set_ijkux_f32 (Graph_new True 0) 1 2 ''w'' False 5) 1 2 ''w'' False (1 / 2 ^ 24))
         1 2 ''w''"
proof -
  let ?g = "set_ijkux_f32 (Graph_new True 0) 1 2 ''w'' False 5"
  let ?G = "\<lparr>data = [(1, [(2, [(''w'', (True, 5))])]), (2, [(1, [(''w'', (False, 5))])])],
             directed = True, no_relationship = 0\<rparr>"
  have "?g = set_ijkux (Graph_new True 0) 1 2 ''w'' False 5"
    by (rule set_f32_agrees) simp
  also have "\<dots> = ?G"
    by code_simp
  finally have g: "?g = ?G" .
  have nr: "no_relationship ?g = 0"
    by simp
  have v: "f32_round (1 / 2 ^ 24) = 1 / 2 ^ 24"
    by (rule f32_example_values)
  have n: "near_sentinel (1 / 2 ^ 24) (no_relationship ?g)"
    unfolding nr near_sentinel_eq diff_zero v by (simp add: tol64_def)
  have c: "contains_dir_ijk ?G 1 2 ''w''"
    by code_simp
  have e: "data (clear_ijku ?G 1 2 ''w'' False) = []"
    by code_simp
  note t = set_f32_sentinel_clears [of "1 / 2 ^ 24" ?g 1 2 "''w''" False, THEN conjunct1, THEN mp, OF n]
  have s: "set_ijkux_f32 ?g 1 2 ''w'' False (1 / 2 ^ 24) = clear_ijku ?g 1 2 ''w'' False"
    by (rule t [THEN conjunct1])
  have o: "\<not> contains_dir_ijk (set_ijkux_f32 ?g 1 2 ''w'' False (1 / 2 ^ 24)) 1 2 ''w''"
    by (rule t [THEN conjunct2, THEN conjunct1])
  have d: "data (set_ijkux_f32 ?g 1 2 ''w'' False (1 / 2 ^ 24)) = []"
    unfolding s unfolding g by (rule e)
  have c': "contains_dir_ijk ?g 1 2 ''w''"
    unfolding g by (rule c)
  from n v c' d o show ?thesis
    by (intro conjI)
qed

theorem set_sentinel_tolerance_counterexample:
  "f32_round (3518437 / 2 ^ 45) = 3518437 / 2 ^ 45
   \<and> f32_round (- 2951479 / 2 ^ 69) = - 2951479 / 2 ^ 69
   \<and> \<bar>3518437 / 2 ^ 45 - no_relationship (Graph_new True (- 2951479 / 2 ^ 69))\<bar> < 1 / 10000000
   \<and> f32_round (3518437 / 2 ^ 45 - no_relationship (Graph_new True (- 2951479 / 2 ^ 69)))
       = 14073749 / 2 ^ 47
   \<and> \<not> near_sentinel (3518437 / 2 ^ 45) (no_relationship (Graph_new True (- 2951479 / 2 ^ 69)))
   \<and> find3 (data (Graph_new True (- 2951479 / 2 ^ 69))) 1 2 ''w'' = None
   \<and> find3 (data (set_ijkux_f32 (Graph_new True (- 2951479 / 2 ^ 69)) 1 2 ''w'' True (3518437 / 2 ^ 45)))
         1 2 ''w'' = Some (True, 3518437 / 2 ^ 45)
   \<and> contains_ijk (set_ijkux_f32 (Graph_new True (- 2951479 / 2 ^ 69)) 1 2 ''w'' True (3518437 / 2 ^ 45))
         1 2 ''w''
   \<and> get_ijk (set_ijkux_f32 (Graph_new True (- 2951479 / 2 ^ 69)) 1 2 ''w'' True (3518437 / 2 ^ 45))
         1 2 ''w'' = 3518437 / 2 ^ 45"
proof -
  let ?x = "3518437 / 2 ^ 45 :: real" and ?s = "- 2951479 / 2 ^ 69 :: real"
  have s: "no_relationship (Graph_new True ?s) = ?s"
    by simp
  have v: "f32_round (?x - ?s) = 14073749 / 2 ^ 47"
    by (rule f32_example_values)
  have n: "\<not> near_sentinel ?x (no_relationship (Graph_new True ?s))"
    unfolding s near_sentinel_eq v by (simp add: tol64_def)
  have c: "\<bar>?x - no_relationship (Graph_new True ?s)\<bar> < 1 / 10000000"
    unfolding s by simp
  have w: "find3 (data (set_ijkux_f32 (Graph_new True ?s) 1 2 ''w'' True ?x)) 1 2 ''w'' = Some (True, ?x)"
    by (simp only: find3_set_f32_undir [OF n]) simp
  from w have "contains_ijk (set_ijkux_f32 (Graph_new True ?s) 1 2 ''w'' True ?x) 1 2 ''w''"
    and "get_ijk (set_ijkux_f32 (Graph_new True ?s) 1 2 ''w'' True ?x) 1 2 ''w'' = ?x"
    by (simp_all add: contains_ijk_def contains_ijku_find3 get_ijk_find3)
  moreover have "f32_round (?x - no_relationship (Graph_new True ?s)) = 14073749 / 2 ^ 47"
    unfolding s by (rule v)
  moreover have "find3 (data (Graph_new True ?s)) 1 2 ''w'' = None"
    by simp
  ultimately show ?thesis
    using n c w f32_example_values(1,2) by (intro conjI)
qed

text \<open>
  Claim C8, amended: for all vertices \<open>i \<noteq> j\<close>, every key and every value \<open>v\<close> outside
  the tolerance of the sentinel, if the entry at \<open>(j, i, key)\<close> is outward before the
  call then \<open>set_dir(i, j, key, v)\<close> leaves it as it is, flag and magnitude, and writes
  \<open>(i, j, key)\<close> as outward with magnitude \<open>v\<close>. For \<open>i = j\<close> the two entries are one
  entry, which the call overwrites.
\<close>

theorem set_dir_keeps_opposite:
  assumes "i \<noteq> j"
    and "\<bar>v - no_relationship g\<bar> \<ge> 1 / 10000000"
    and "find3 (data g) j i key = Some (True, m)"
  shows "find3 (data (set_dir_ijkx g i j key v)) j i key = Some (True, m)
       \<and> find3 (data (set_dir_ijkx g i j key v)) i j key = Some (True, v)"
  using assms by (simp add: set_dir_ijkx_def find3_set_dir)

theorem set_dir_keeps_opposite_witness:
  "(1::int) \<noteq> 2
   \<and> \<bar>5 - no_relationship (set_dir_ijkx (Graph_new True 0) 2 1 ''w'' 7)\<bar> \<ge> 1 / 10000000
   \<and> find3 (data (set_dir_ijkx (Graph_new True 0) 2 1 ''w'' 7)) 2 1 ''w'' = Some (True, 7)
   \<and> find3 (data (set_dir_ijkx (set_dir_ijkx (Graph_new True 0) 2 1 ''w'' 7) 1 2 ''w'' 5)) 2 1 ''w''
       = Some (True, 7)
   \<and> find3 (data (set_dir_ijkx (set_dir_ijkx (Graph_new True 0) 2 1 ''w'' 7) 1 2 ''w'' 5)) 1 2 ''w''
       = Some (True, 5)"
  using set_dir_keeps_opposite [of 1 2 5 "set_dir_ijkx (Graph_new True 0) 2 1 ''w'' 7" "''w''" 7]
  by (simp add: set_dir_ijkx_def find3_set_dir)

theorem set_dir_keeps_opposite_counterexample:
  "\<bar>7 - no_relationship (set_dir_ijkx (Graph_new True 0) 1 1 ''w'' 5)\<bar> \<ge> 1 / 10000000
   \<and> find3 (data (set_dir_ijkx (Graph_new True 0) 1 1 ''w'' 5)) 1 1 ''w'' = Some (True, 5)
   \<and> find3 (data (set_dir_ijkx (set_dir_ijkx (Graph_new True 0) 1 1 ''w'' 5) 1 1 ''w'' 7)) 1 1 ''w''
       = Some (True, 7)
   \<and> find3 (data (set_dir_ijkx (set_dir_ijkx (Graph_new True 0) 1 1 ''w'' 5) 1 1 ''w'' 7)) 1 1 ''w''
       \<noteq> find3 (data (set_dir_ijkx (Graph_new True 0) 1 1 ''w'' 5)) 1 1 ''w''"
  by (simp add: set_dir_ijkx_def find3_set_dir)

text \<open>
  Claim C10: a self-loop set by \<open>set_dir(i, i, key, v)\<close> or \<open>set_undir(i, i, key, v)\<close> is
  one outward entry, \<open>get(i, i, key)\<close> returns \<open>v\<close>, and \<open>clear(i, i, key, undir)\<close> removes
  it. With \<open>undir = false\<close> the clear finds the entry to be its own outward mirror and
  takes the branch of a two-way pair: after \<open>set_dir(1, 1, "w", 5)\<close> and
  \<open>clear(1, 1, "w", false)\<close> the entry is still there with the outward flag unset,
  \<open>get(1, 1, "w")\<close> returns -5 and vertex 1 is still present; with \<open>undir = true\<close> the
  entry is removed.
\<close>

theorem self_loop_directed_clear_keeps_entry:
  "\<bar>5 - no_relationship (Graph_new True 0)\<bar> \<ge> 1 / 10000000
   \<and> find3 (data (set_dir_ijkx (Graph_new True 0) 1 1 ''w'' 5)) 1 1 ''w'' = Some (True, 5)
   \<and> get_ijk (set_dir_ijkx (Graph_new True 0) 1 1 ''w'' 5) 1 1 ''w'' = 5
   \<and> find3 (data (clear_ijku (set_dir_ijkx (Graph_new True 0) 1 1 ''w'' 5) 1 1 ''w'' False)) 1 1 ''w''
       = Some (False, 5)
   \<and> get_ijk (clear_ijku (set_dir_ijkx (Graph_new True 0) 1 1 ''w'' 5) 1 1 ''w'' False) 1 1 ''w'' = - 5
   \<and> contains_undir_i (clear_ijku (set_dir_ijkx (Graph_new True 0) 1 1 ''w'' 5) 1 1 ''w'' False) 1
   \<and> find3 (data (clear_ijku (set_dir_ijkx (Graph_new True 0) 1 1 ''w'' 5) 1 1 ''w'' True)) 1 1 ''w''
       = None"
proof -
  let ?g = "set_dir_ijkx (Graph_new True 0) 1 1 ''w'' 5"
  have a: "find3 (data ?g) 1 1 ''w'' = Some (True, 5)"
    by (simp add: set_dir_ijkx_def find3_set_dir)
  have b: "find3 (data (clear_ijku ?g 1 1 ''w'' False)) 1 1 ''w'' = Some (False, 5)"
    by (simp add: find3_clear_dir_twoway [OF a a])
  show ?thesis
    using a b find3_contains_undir_i [OF b]
    by (simp add: get_ijk_find3 find3_clear_undir_at)
qed


text \<open>
  Claim C3: the mirror invariant is preserved by every public \<open>set\<close> and \<open>clear\<close>
  operation. From every table in which each entry with the outward flag set has an
  entry at the mirrored position, every one of the twenty public mutators returns, and
  the table it leaves satisfies the invariant again (and is again a well-formed nest of
  ordered maps). Where in addition every mirror-only entry stores the magnitude of its
  outward entry before the call, it does so after the call.
\<close>

theorem mutators_preserve_mirror_inv:
  assumes "wf_table (data g)" and "mirror_inv g"
  shows "\<exists>g'. exec m g = Some g' \<and> wf_table (data g') \<and> mirror_inv g'
           \<and> (mirror_mag_inv g \<longrightarrow> mirror_mag_inv g')"
proof -
  obtain g' where g': "exec m g = Some g'"
    using exec_defined by blast
  from assms(1) g' have wf: "wf_table (data g')"
    by (rule wf_exec)
  from assms g' have "minv (data g')"
    by (intro minv_exec [of g m g'] mirror_inv_minv)
  with wf have a: "mirror_inv g'"
    by (intro minv_mirror_inv)
  have b: "mirror_mag_inv g'" if "mirror_mag_inv g"
  proof -
    from assms(1) that g' have "mmag (data g')"
      by (intro mmag_exec [of g m g'] mirror_mag_inv_mmag)
    with wf show ?thesis
      by (intro mmag_mirror_mag_inv)
  qed
  from g' wf a b show ?thesis by blast
qed

theorem mutators_preserve_mirror_inv_witness:
  "wf_table (data (set_dir_ijkx (Graph_new True 0) 1 2 ''w'' 5))
   \<and> mirror_inv (set_dir_ijkx (Graph_new True 0) 1 2 ''w'' 5)
   \<and> mirror_mag_inv (set_dir_ijkx (Graph_new True 0) 1 2 ''w'' 5)
   \<and> exec (Set_dir_ijkx 2 1 ''w'' 7) (set_dir_ijkx (Graph_new True 0) 1 2 ''w'' 5) =
       Some \<lparr>data = [(1, [(2, [(''w'', (True, 5))])]), (2, [(1, [(''w'', (True, 7))])])],
             directed = True, no_relationship = 0\<rparr>
   \<and> mirror_inv \<lparr>data = [(1, [(2, [(''w'', (True, 5))])]), (2, [(1, [(''w'', (True, 7))])])],
                   directed = True, no_relationship = 0\<rparr>
   \<and> mirror_mag_inv \<lparr>data = [(1, [(2, [(''w'', (True, 5))])]), (2, [(1, [(''w'', (True, 7))])])],
                       directed = True, no_relationship = 0\<rparr>"
proof -
  have a: "wf_table (data (set_dir_ijkx (Graph_new True 0) 1 2 ''w'' 5))"
    by code_simp
  have b: "mirror_inv (set_dir_ijkx (Graph_new True 0) 1 2 ''w'' 5)"
    by code_simp
  have c: "mirror_mag_inv (set_dir_ijkx (Graph_new True 0) 1 2 ''w'' 5)"
    by code_simp
  have d: "exec (Set_dir_ijkx 2 1 ''w'' 7) (set_dir_ijkx (Graph_new True 0) 1 2 ''w'' 5) =
       Some \<lparr>data = [(1, [(2, [(''w'', (True, 5))])]), (2, [(1, [(''w'', (True, 7))])])],
             directed = True, no_relationship = 0\<rparr>"
    by code_simp
  from mutators_preserve_mirror_inv [OF a b, of "Set_dir_ijkx 2 1 ''w'' 7"] a b c d
  show ?thesis by simp
qed

lemma run_invariant:
  assumes "wf_table (data g)" and "ne_upto (data g) {} {}"
  shows "\<exists>g'. run ms g = Some g' \<and> wf_table (data g') \<and> ne_upto (data g') {} {}"
  using assms
proof (induction ms arbitrary: g)
  case Nil
  then show ?case by simp
next
  case (Cons m ms)
  obtain g1 where g1: "exec m g = Some g1"
    using exec_defined by blast
  from Cons.prems g1 have "wf_table (data g1)" and "ne_upto (data g1) {} {}"
    by (auto intro: wf_exec ne_exec)
  from Cons.IH [OF this] g1 show ?case by simp
qed

text \<open>
  Claim C9: after any finite sequence of \<open>set\<close> and \<open>clear\<close> calls starting from the
  empty store, the table contains no empty inner map. For every list of calls of the
  twenty public mutators and every configuration of the empty graph, the run returns
  and no vertex map and no neighbour map of the resulting table is empty.
\<close>

theorem no_empty_after_any_calls:
  "\<exists>g. run ms (Graph_new dir x) = Some g \<and> no_empty g"
proof -
  have "wf_table (data (Graph_new dir x))" and "ne_upto (data (Graph_new dir x)) {} {}"
    by (simp_all add: Graph_new_def ne_upto_def find2_def)
  then obtain g where "run ms (Graph_new dir x) = Some g"
    and "wf_table (data g)" and "ne_upto (data g) {} {}"
    using run_invariant by blast
  then show ?thesis
    by (auto intro: ne_no_empty)
qed

theorem no_empty_after_any_calls_witness:
  "run [Set_dir_ijkx 1 2 ''a'' 5, Set_undir_ijkx 2 3 ''b'' 4, Clear_k ''a''] (Graph_new True 0) =
     Some \<lparr>data = [(2, [(3, [(''b'', (True, 4))])]), (3, [(2, [(''b'', (True, 4))])])],
           directed = True, no_relationship = 0\<rparr>
   \<and> no_empty \<lparr>data = [(2, [(3, [(''b'', (True, 4))])]), (3, [(2, [(''b'', (True, 4))])])],
                directed = True, no_relationship = 0\<rparr>"
proof -
  have r: "run [Set_dir_ijkx 1 2 ''a'' 5, Set_undir_ijkx 2 3 ''b'' 4, Clear_k ''a''] (Graph_new True 0) =
     Some \<lparr>data = [(2, [(3, [(''b'', (True, 4))])]), (3, [(2, [(''b'', (True, 4))])])],
           directed = True, no_relationship = 0\<rparr>"
    by code_simp
  from no_empty_after_any_calls
    [of "[Set_dir_ijkx 1 2 ''a'' 5, Set_undir_ijkx 2 3 ''b'' 4, Clear_k ''a'']" True 0] r
  show ?thesis by simp
qed

end
